theory Spec2Isabelle
  imports Complex_Main "HOL-Library.Sublist"
begin

section \<open>Strings\<close>

text \<open>
  A Python \<open>str\<close> is a \<open>string\<close>, and a character is a code point below 256. There,
  white space is what \<open>str.isspace\<close> accepts (the no-break space and the next-line
  character included), and \<open>\d\<close> matches the digits \<open>0\<close>..\<open>9\<close> and nothing else. Case
  mapping is modelled on the letters \<open>a\<close>..\<open>z\<close> and \<open>A\<close>..\<open>Z\<close>: a character from 128 on
  that Python maps to something else is mapped to characters (the sharp s to \<open>SS\<close> by
  \<open>upper\<close>) that occur in none of the strings the program compares with (the prefix
  table, \<open>OVERALL\<close>, \<open>rank\<close>), so the comparisons of the program come out the same.
\<close>

definition ascii_lowercase :: string where
  "ascii_lowercase = ''abcdefghijklmnopqrstuvwxyz''"

definition ascii_uppercase :: string where
  "ascii_uppercase = ''ABCDEFGHIJKLMNOPQRSTUVWXYZ''"

definition upper_char :: "char \<Rightarrow> char" where
  "upper_char c = (case map_of (zip ascii_lowercase ascii_uppercase) c of
                     Some u \<Rightarrow> u | None \<Rightarrow> c)"

definition lower_char :: "char \<Rightarrow> char" where
  "lower_char c = (case map_of (zip ascii_uppercase ascii_lowercase) c of
                     Some l \<Rightarrow> l | None \<Rightarrow> c)"

text \<open>\<open>s.upper()\<close> and \<open>s.lower()\<close>.\<close>

definition upper :: "string \<Rightarrow> string" where
  "upper s = map upper_char s"

definition lower :: "string \<Rightarrow> string" where
  "lower s = map lower_char s"

definition whitespace :: string where
  "whitespace = [CHR 0x09, CHR 0x0A, CHR 0x0B, CHR 0x0C, CHR 0x0D,
                 CHR 0x1C, CHR 0x1D, CHR 0x1E, CHR 0x1F, CHR 0x20, CHR 0x85, CHR 0xA0]"

definition is_space :: "char \<Rightarrow> bool" where
  "is_space c = (c \<in> set whitespace)"

text \<open>
  \<open>s.strip()\<close>, also what \<open>get_text(strip=True)\<close> applies to every text node: white
  space is dropped at both ends.
\<close>

definition strip :: "string \<Rightarrow> string" where
  "strip s = rev (dropWhile is_space (rev (dropWhile is_space s)))"

definition digits :: string where
  "digits = ''0123456789''"

definition is_digit :: "char \<Rightarrow> bool" where
  "is_digit c = (c \<in> set digits)"

text \<open>The value of a digit is its position in \<open>digits\<close>; \<open>int(s)\<close> on a string of digits.\<close>

definition digit_val :: "char \<Rightarrow> int" where
  "digit_val c = int (length (takeWhile (\<lambda>d. d \<noteq> c) digits))"

definition int_of_digits :: "string \<Rightarrow> int" where
  "int_of_digits s = foldl (\<lambda>a c. 10 * a + digit_val c) 0 s"

section \<open>Configuration\<close>

definition SEASON_BASES :: "(string \<times> string) list" where
  "SEASON_BASES =
    [(''Season 1'', ''https://results.hyrox.com/season-1/''),
     (''Season 2'', ''https://results.hyrox.com/season-2/''),
     (''Season 3'', ''https://results.hyrox.com/season-3/''),
     (''Season 4'', ''https://results.hyrox.com/season-4/''),
     (''Season 5'', ''https://results.hyrox.com/season-5/''),
     (''Season 6'', ''https://results.hyrox.com/season-6/''),
     (''Season 7'', ''https://results.hyrox.com/season-7/''),
     (''Season 8'', ''https://results.hyrox.com/season-8/'')]"

definition PER_PAGE :: int where
  "PER_PAGE = 25"

definition MAX_PAGES :: int where
  "MAX_PAGES = 4"

definition ONLY_OPEN :: bool where
  "ONLY_OPEN = True"

text \<open>
  \<open>CATEGORY_PREFIXES\<close> is a dict literal; iterating over its items follows the order in
  which they are written, so it is kept as a list of pairs.
\<close>

definition CATEGORY_PREFIXES :: "(string \<times> string) list" where
  "CATEGORY_PREFIXES =
    [(''HPRO_'', ''HYROX PRO''),
     (''HDP_'', ''HYROX PRO DOUBLES''),
     (''HD_'', ''HYROX DOUBLES''),
     (''HMR_'', ''HYROX TEAM RELAY''),
     (''HA_'', ''HYROX ADAPTIVE''),
     (''HY1_'', ''HYROX YOUNGSTARS''),
     (''HG_'', ''HYROX GORUCK''),
     (''HE_'', ''HYROX ELITE''),
     (''WCHE'', ''WCHE ELITE''),
     (''H_'', ''HYROX'')]"

definition GENDERS :: "(string \<times> string) list" where
  "GENDERS = [(''M'', ''Men'')]"

section \<open>Category classifier\<close>

text \<open>
  The loop of \<open>category_from_code\<close> over the items of a prefix table: the first prefix
  that \<open>code.upper()\<close> starts with gives the label, and the label after the loop is the
  default.
\<close>

fun category_loop :: "(string \<times> string) list \<Rightarrow> string \<Rightarrow> string" where
  "category_loop [] code = ''HYROX''"
| "category_loop ((pre, name) # rest) code =
     (if prefix pre (upper code) then name else category_loop rest code)"

definition category_from_code :: "string \<Rightarrow> string" where
  "category_from_code code = category_loop CATEGORY_PREFIXES code"

section \<open>Decoded JSON\<close>

text \<open>
  What \<open>r.json()\<close> returns. An object is the list of the items of the decoded dict, whose
  keys are distinct; a lookup takes the item with the key. The program only tests numbers
  for truth, so a number is kept as an integer.
\<close>

datatype json =
    JNull
  | JBool bool
  | JNum int
  | JStr string
  | JArr "json list"
  | JObj "(string \<times> json) list"

text \<open>The exceptions the program meets: the request's own, and Python's.\<close>

datatype exn = RequestError | KeyError | TypeError | AttributeError | IndexError

text \<open>\<open>d[k]\<close> for a string key: only a dict can be subscripted by a string.\<close>

fun getitem :: "json \<Rightarrow> string \<Rightarrow> exn + json" where
  "getitem (JObj kvs) k = (case map_of kvs k of None \<Rightarrow> Inl KeyError | Some v \<Rightarrow> Inr v)"
| "getitem _ k = Inl TypeError"

text \<open>\<open>d[k1][k2]...[kn]\<close>, stopping at the first subscript that raises.\<close>

fun getpath :: "json \<Rightarrow> string list \<Rightarrow> exn + json" where
  "getpath d [] = Inr d"
| "getpath d (k # ks) = (case getitem d k of Inl e \<Rightarrow> Inl e | Inr v \<Rightarrow> getpath v ks)"

text \<open>\<open>x.get(k)\<close>: a method of dicts alone; a missing key gives \<open>None\<close>.\<close>

fun dict_get :: "json \<Rightarrow> string \<Rightarrow> exn + json" where
  "dict_get (JObj kvs) k = Inr (case map_of kvs k of None \<Rightarrow> JNull | Some v \<Rightarrow> v)"
| "dict_get _ k = Inl AttributeError"

text \<open>The truth value of an object in a condition.\<close>

fun truthy :: "json \<Rightarrow> bool" where
  "truthy JNull = False"
| "truthy (JBool b) = b"
| "truthy (JNum n) = (n \<noteq> 0)"
| "truthy (JStr s) = (s \<noteq> [])"
| "truthy (JArr xs) = (xs \<noteq> [])"
| "truthy (JObj kvs) = (kvs \<noteq> [])"

text \<open>\<open>len(v)\<close>.\<close>

fun len :: "json \<Rightarrow> exn + nat" where
  "len (JStr s) = Inr (length s)"
| "len (JArr xs) = Inr (length xs)"
| "len (JObj kvs) = Inr (length kvs)"
| "len _ = Inl TypeError"

text \<open>
  \<open>v[i]\<close> for \<open>i\<close> 0 or 1: an element of a list, a character of a string; a decoded JSON
  object has string keys only, so an integer is never one of its keys.
\<close>

fun index :: "json \<Rightarrow> nat \<Rightarrow> exn + json" where
  "index (JArr xs) i = (if i < length xs then Inr (xs ! i) else Inl IndexError)"
| "index (JStr s) i = (if i < length s then Inr (JStr [s ! i]) else Inl IndexError)"
| "index (JObj kvs) i = Inl KeyError"
| "index _ i = Inl TypeError"

text \<open>\<open>for item in data\<close>: the elements of a list, the characters of a string, the keys of a dict.\<close>

fun iter :: "json \<Rightarrow> exn + json list" where
  "iter (JArr xs) = Inr xs"
| "iter (JStr s) = Inr (map (\<lambda>c. JStr [c]) s)"
| "iter (JObj kvs) = Inr (map (\<lambda>(k, v). JStr k) kvs)"
| "iter _ = Inl TypeError"

text \<open>\<open>x.upper()\<close> on a decoded value: a method of strings alone.\<close>

fun str_upper :: "json \<Rightarrow> exn + string" where
  "str_upper (JStr s) = Inr (upper s)"
| "str_upper _ = Inl AttributeError"

section \<open>Parsed HTML\<close>

text \<open>
  What \<open>BeautifulSoup(r.text, "html.parser")\<close> gives, as far as the program reads it: a
  tree of text nodes and of elements with a tag name, the tokens of the \<open>class\<close> attribute
  (none when the attribute is absent) and children. The soup itself is the root element.
\<close>

datatype html =
    Text string
  | Elem string "string list" "html list"

text \<open>
  A \<open>class_\<close> filter is tried on every token of the class attribute and then on the tokens
  joined by single spaces.
\<close>

fun join_spaces :: "string list \<Rightarrow> string" where
  "join_spaces [] = []"
| "join_spaces [c] = c"
| "join_spaces (c # cs) = c @ '' '' @ join_spaces cs"

definition class_matches :: "(string \<Rightarrow> bool) \<Rightarrow> string list \<Rightarrow> bool" where
  "class_matches f cs = (list_ex f cs \<or> f (join_spaces cs))"

fun has_class :: "(string \<Rightarrow> bool) \<Rightarrow> html \<Rightarrow> bool" where
  "has_class f (Text s) = False"
| "has_class f (Elem t cs ch) = class_matches f cs"

fun has_tag :: "string \<Rightarrow> html \<Rightarrow> bool" where
  "has_tag name (Text s) = False"
| "has_tag name (Elem t cs ch) = (t = name)"

text \<open>The nodes below a node, in document order.\<close>

fun descendants :: "html \<Rightarrow> html list" where
  "descendants (Text s) = []"
| "descendants (Elem t cs ch) = concat (map (\<lambda>c. c # descendants c) ch)"

text \<open>\<open>node.find(...)\<close>: the first node below \<open>node\<close> that passes the filter, or \<open>None\<close>.\<close>

definition find_first :: "(html \<Rightarrow> bool) \<Rightarrow> html \<Rightarrow> html option" where
  "find_first p node = List.find p (descendants node)"

text \<open>The text nodes at and below a node, in document order.\<close>

fun strings :: "html \<Rightarrow> string list" where
  "strings (Text s) = [s]"
| "strings (Elem t cs ch) = concat (map strings ch)"

text \<open>\<open>el.get_text()\<close>.\<close>

definition get_text :: "html \<Rightarrow> string" where
  "get_text el = concat (strings el)"

text \<open>\<open>el.get_text(strip=True)\<close>: every text node is stripped, and the empty ones are left out.\<close>

definition get_text_strip :: "html \<Rightarrow> string" where
  "get_text_strip el = concat (filter (\<lambda>s. s \<noteq> []) (map strip (strings el)))"

text \<open>The filters of the program, on one class string.\<close>

definition row_class :: "string \<Rightarrow> bool" where
  "row_class c = (c \<noteq> [] \<and> sublist ''list-group-item'' c \<and> sublist ''row'' c)"

definition mobile_class :: "string \<Rightarrow> bool" where
  "mobile_class c = (sublist ''visible-xs'' c \<or> sublist ''visible-sm'' c)"

definition is_row :: "html \<Rightarrow> bool" where
  "is_row n = (has_tag ''li'' n \<and> has_class row_class n)"

definition is_mobile_label :: "html \<Rightarrow> bool" where
  "is_mobile_label n = has_class mobile_class n"

text \<open>
  \<open>for label in row.find_all(class_=re.compile(r"visible-xs|visible-sm")): label.decompose()\<close>:
  every mobile label below the row leaves the tree, with all that is below it.
\<close>

fun remove_labels :: "html \<Rightarrow> html" where
  "remove_labels (Text s) = Text s"
| "remove_labels (Elem t cs ch) =
     Elem t cs (map remove_labels (filter (\<lambda>c. \<not> is_mobile_label c) ch))"

text \<open>
  A decomposed element: no name, no attributes, no contents. Every search below it finds
  nothing.
\<close>

definition decomposed :: html where
  "decomposed = Elem [] [] []"

text \<open>
  \<open>soup.find_all("li", class_=...)\<close> lists the rows in document order before the loop
  starts, and the loop then changes the tree the rows share: the labels it removes from a
  row are also gone from the rows below that row, and a row that stands inside a removed
  label is decomposed with it before its own turn comes. \<open>rows_walk in_row dead n\<close> lists
  the rows at and below \<open>n\<close> as the loop meets them: \<open>in_row\<close> says that a row stands above
  \<open>n\<close>, \<open>dead\<close> that \<open>n\<close> is inside a label of a row above.
\<close>

fun rows_walk :: "bool \<Rightarrow> bool \<Rightarrow> html \<Rightarrow> html list" where
  "rows_walk in_row dead (Text s) = []"
| "rows_walk in_row dead (Elem t cs ch) =
     (let me = Elem t cs ch;
          dead' = (dead \<or> (in_row \<and> is_mobile_label me))
      in (if is_row me then [if dead' then decomposed else me] else [])
         @ concat (map (rows_walk (in_row \<or> is_row me) dead') ch))"

fun find_all_rows :: "html \<Rightarrow> html list" where
  "find_all_rows (Text s) = []"
| "find_all_rows (Elem t cs ch) = concat (map (rows_walk False False) ch)"

section \<open>Result row parser\<close>

text \<open>
  \<open>re.search(r"(\d[\d,]*)", text)\<close>: the match starts at the first digit of the text and
  runs on over digits and commas.
\<close>

definition search_number :: "string \<Rightarrow> string option" where
  "search_number text =
     (let t = dropWhile (\<lambda>c. \<not> is_digit c) text
      in if t = [] then None else Some (takeWhile (\<lambda>c. is_digit c \<or> c = CHR '','') t))"

definition parse_total_count :: "html \<Rightarrow> int" where
  "parse_total_count soup =
     (case find_first (has_class (\<lambda>c. c = ''list-info__text str_num'')) soup of
        Some el \<Rightarrow>
          (case search_number (get_text el) of
             Some m \<Rightarrow> int_of_digits (filter (\<lambda>c. c \<noteq> CHR '','') m)
           | None \<Rightarrow> 0)
      | None \<Rightarrow> 0)"

record athlete =
  a_rank :: string
  a_athlete :: string
  a_nationality :: string
  a_age_group :: string
  a_total_time :: string

text \<open>\<open>el.get_text(strip=True) if el else ""\<close>.\<close>

definition text_or_empty :: "html option \<Rightarrow> string" where
  "text_or_empty el = (case el of Some e \<Rightarrow> get_text_strip e | None \<Rightarrow> [])"

text \<open>The five searches of the loop body, on a row whose mobile labels are removed.\<close>

definition rank_el :: "html \<Rightarrow> html option" where
  "rank_el row = find_first (has_class (sublist ''place-primary'')) row"

definition name_el :: "html \<Rightarrow> html option" where
  "name_el row = find_first (has_class (sublist ''type-fullname'')) row"

definition nat_el :: "html \<Rightarrow> html option" where
  "nat_el row = find_first (\<lambda>n. has_tag ''span'' n \<and> has_class (\<lambda>c. c = ''nation__abbr'') n) row"

definition age_el :: "html \<Rightarrow> html option" where
  "age_el row = find_first (has_class (sublist ''type-age_class'')) row"

definition time_el :: "html \<Rightarrow> html option" where
  "time_el row = find_first (has_class (sublist ''type-time'')) row"

text \<open>The loop of \<open>parse_result_rows\<close> over the rows, appending to \<open>athletes\<close>.\<close>

fun rows_loop :: "html list \<Rightarrow> athlete list" where
  "rows_loop [] = []"
| "rows_loop (row0 # rest) =
     (let row = remove_labels row0;
          rank = text_or_empty (rank_el row);
          name = text_or_empty (name_el row);
          nat = text_or_empty (nat_el row);
          age = text_or_empty (age_el row);
          tot = text_or_empty (time_el row)
      in if lower rank \<in> {''rank'', []} then rows_loop rest
         else if name = [] then rows_loop rest
         else \<lparr>a_rank = rank, a_athlete = name, a_nationality = nat,
               a_age_group = age, a_total_time = tot\<rparr> # rows_loop rest)"

definition parse_result_rows :: "html \<Rightarrow> athlete list" where
  "parse_result_rows soup = rows_loop (find_all_rows soup)"

section \<open>Requests\<close>

text \<open>
  The two requests of the program: \<open>getSearchFields\<close> on a season (scoped to an event
  group or not), and one page of results for an event group, event code and sex. A
  response is read either through \<open>r.json()\<close>, which raises when the body is not JSON
  (\<open>None\<close> here), or through \<open>BeautifulSoup(r.text, "html.parser")\<close>.
\<close>

datatype request =
    SearchFields string "json option"
  | ResultsPage string json string string int

record response =
  resp_json :: "json option"
  resp_soup :: html

text \<open>
  The remote site is a parameter: it answers a request, knowing all earlier requests and
  their outcomes, with a response or with the exception that \<open>requests.get\<close> or
  \<open>raise_for_status\<close> raises.
\<close>

type_synonym outcome = "exn + response"

type_synonym exchange = "request \<times> outcome"

type_synonym network = "exchange list \<Rightarrow> request \<Rightarrow> outcome"

section \<open>The store and the state of a run\<close>

text \<open>
  One row of the output file, with the columns of \<open>FIELDNAMES\<close> (each field is named
  \<open>r_\<close> and the column). The event group and the event label are written as the decoded
  values the discovery gave.
\<close>

record csv_row =
  r_season :: string
  r_event_main_group :: json
  r_event_code :: string
  r_event_label :: json
  r_category :: string
  r_gender :: string
  r_rank :: string
  r_athlete :: string
  r_nationality :: string
  r_age_group :: string
  r_total_time :: string

text \<open>
  The state a run threads through its calls: the in-memory set \<open>done_keys\<close>, the rows of
  the output file (those it held at startup, then the appended ones), and the exchanges
  with the remote site so far.
\<close>

record run_state =
  done_keys :: "(string \<times> string) set"
  store :: "csv_row list"
  exchanges :: "exchange list"

text \<open>
  \<open>polite_get\<close>: the request is sent and its outcome recorded. The pause before the
  request takes time and changes nothing else, so the model leaves it out.
\<close>

definition polite_get :: "network \<Rightarrow> request \<Rightarrow> run_state \<Rightarrow> outcome \<times> run_state" where
  "polite_get net req st =
     (let out = net (exchanges st) req
      in (out, st\<lparr>exchanges := exchanges st @ [(req, out)]\<rparr>))"

section \<open>Event discovery\<close>

record event_option =
  opt_value :: json
  opt_text :: json

text \<open>
  The list comprehension of \<open>get_event_groups\<close>:
  \<open>[{"value": item["v"][0], "text": item["v"][1]} for item in emg_data if item.get("v")]\<close>.
\<close>

fun group_items :: "json list \<Rightarrow> exn + event_option list" where
  "group_items [] = Inr []"
| "group_items (item # rest) =
     (case dict_get item ''v'' of
        Inl e \<Rightarrow> Inl e
      | Inr g \<Rightarrow>
          if truthy g then
            (case getitem item ''v'' of
               Inl e \<Rightarrow> Inl e
             | Inr v \<Rightarrow>
                 (case index v 0 of
                    Inl e \<Rightarrow> Inl e
                  | Inr a \<Rightarrow>
                      (case index v 1 of
                         Inl e \<Rightarrow> Inl e
                       | Inr b \<Rightarrow>
                           (case group_items rest of
                              Inl e \<Rightarrow> Inl e
                            | Inr r \<Rightarrow> Inr (\<lparr>opt_value = a, opt_text = b\<rparr> # r)))))
          else group_items rest)"

text \<open>\<open>get_event_groups\<close> from the decoded response on.\<close>

definition event_groups_of :: "json option \<Rightarrow> exn + event_option list" where
  "event_groups_of body =
     (case body of
        None \<Rightarrow> Inr []
      | Some data \<Rightarrow>
          (case getpath data [''branches'', ''lists'', ''fields'', ''event_main_group'', ''data''] of
             Inl e \<Rightarrow> Inr []
           | Inr emg_data \<Rightarrow>
               (case iter emg_data of
                  Inl e \<Rightarrow> Inl e
                | Inr items \<Rightarrow> group_items items)))"

definition get_event_groups ::
  "network \<Rightarrow> string \<Rightarrow> run_state \<Rightarrow> (exn + event_option list) \<times> run_state" where
  "get_event_groups net base_url st =
     (case polite_get net (SearchFields base_url None) st of
        (Inl e, st') \<Rightarrow> (Inl e, st')
      | (Inr r, st') \<Rightarrow> (event_groups_of (resp_json r), st'))"

text \<open>
  The loop of \<open>get_event_codes\<close> over \<open>ev_data\<close>:
  \<open>v = item.get("v")\<close>, and \<open>if v and len(v) >= 2: result.append(...)\<close>.
\<close>

fun code_items :: "json list \<Rightarrow> exn + event_option list" where
  "code_items [] = Inr []"
| "code_items (item # rest) =
     (case dict_get item ''v'' of
        Inl e \<Rightarrow> Inl e
      | Inr v \<Rightarrow>
          if truthy v then
            (case len v of
               Inl e \<Rightarrow> Inl e
             | Inr n \<Rightarrow>
                 if n \<ge> 2 then
                   (case index v 0 of
                      Inl e \<Rightarrow> Inl e
                    | Inr a \<Rightarrow>
                        (case index v 1 of
                           Inl e \<Rightarrow> Inl e
                         | Inr b \<Rightarrow>
                             (case code_items rest of
                                Inl e \<Rightarrow> Inl e
                              | Inr r \<Rightarrow> Inr (\<lparr>opt_value = a, opt_text = b\<rparr> # r))))
                 else code_items rest)
          else code_items rest)"

text \<open>What \<open>get_event_codes\<close> does with \<open>ev_data\<close> once one of the two paths gave it.\<close>

definition event_list :: "json \<Rightarrow> exn + event_option list" where
  "event_list ev_data =
     (case iter ev_data of Inl e \<Rightarrow> Inl e | Inr items \<Rightarrow> code_items items)"

text \<open>
  \<open>get_event_codes\<close> from the decoded response on. Subscripting raises \<open>KeyError\<close> or
  \<open>TypeError\<close> only, and both \<open>except\<close> clauses catch both.
\<close>

definition event_codes_of :: "json option \<Rightarrow> exn + event_option list" where
  "event_codes_of body =
     (case body of
        None \<Rightarrow> Inr []
      | Some data \<Rightarrow>
          (case getpath data [''branches'', ''lists'', ''fields'', ''event'', ''data''] of
             Inr ev_data \<Rightarrow> event_list ev_data
           | Inl e \<Rightarrow>
               (case getpath data [''event'', ''data''] of
                  Inr ev_data \<Rightarrow> event_list ev_data
                | Inl e' \<Rightarrow> Inr [])))"

definition get_event_codes ::
  "network \<Rightarrow> string \<Rightarrow> json \<Rightarrow> run_state \<Rightarrow> (exn + event_option list) \<times> run_state" where
  "get_event_codes net base_url emg st =
     (case polite_get net (SearchFields base_url (Some emg)) st of
        (Inl e, st') \<Rightarrow> (Inl e, st')
      | (Inr r, st') \<Rightarrow> (event_codes_of (resp_json r), st'))"

section \<open>Collection driver\<close>

definition get_results_page ::
  "network \<Rightarrow> string \<Rightarrow> json \<Rightarrow> string \<Rightarrow> string \<Rightarrow> int \<Rightarrow> run_state \<Rightarrow> outcome \<times> run_state" where
  "get_results_page net base_url emg code sex page st =
     polite_get net (ResultsPage base_url emg code sex page) st"

text \<open>\<open>load_done_keys\<close> on the rows of the output file (none when the file does not exist).\<close>

definition load_done_keys :: "csv_row list \<Rightarrow> (string \<times> string) set" where
  "load_done_keys rows = set (map (\<lambda>r. (r_event_code r, r_gender r)) rows)"

text \<open>
  What stays the same through one call of \<open>scrape_combo\<close>, and the row it writes for an
  athlete.
\<close>

record combo =
  c_base_url :: string
  c_season :: string
  c_event_main_group :: json
  c_event_code :: string
  c_event_label :: json
  c_category :: string
  c_gender :: string

definition writerow :: "combo \<Rightarrow> athlete \<Rightarrow> csv_row" where
  "writerow c a =
     \<lparr>r_season = c_season c, r_event_main_group = c_event_main_group c,
      r_event_code = c_event_code c, r_event_label = c_event_label c,
      r_category = c_category c, r_gender = c_gender c,
      r_rank = a_rank a, r_athlete = a_athlete a, r_nationality = a_nationality a,
      r_age_group = a_age_group a, r_total_time = a_total_time a\<rparr>"

text \<open>The part of the page loop after the fetch: every parsed row is appended to the file.\<close>

definition write_page :: "combo \<Rightarrow> html \<Rightarrow> run_state \<Rightarrow> run_state" where
  "write_page c soup st = st\<lparr>store := store st @ map (writerow c) (parse_result_rows soup)\<rparr>"

text \<open>
  The loop \<open>for page_num in range(1, fetch_pages + 1)\<close> over the page numbers left, with
  the soup in hand: a page after the first is fetched first, and a fetch that raises
  breaks the loop.
\<close>

fun page_loop :: "network \<Rightarrow> combo \<Rightarrow> int list \<Rightarrow> html \<Rightarrow> run_state \<Rightarrow> run_state" where
  "page_loop net c [] soup st = st"
| "page_loop net c (page_num # rest) soup st =
     (if page_num > 1 then
        (case get_results_page net (c_base_url c) (c_event_main_group c) (c_event_code c)
                (c_gender c) page_num st of
           (Inl e, st') \<Rightarrow> st'
         | (Inr r, st') \<Rightarrow>
             page_loop net c rest (resp_soup r) (write_page c (resp_soup r) st'))
      else page_loop net c rest soup (write_page c soup st))"

definition total_pages :: "int \<Rightarrow> int" where
  "total_pages total_count = (total_count + PER_PAGE - 1) div PER_PAGE"

definition fetch_pages :: "int \<Rightarrow> int" where
  "fetch_pages total_count = min (total_pages total_count) MAX_PAGES"

definition scrape_combo :: "network \<Rightarrow> combo \<Rightarrow> run_state \<Rightarrow> run_state" where
  "scrape_combo net c st =
     (let key = (c_event_code c, c_gender c)
      in if key \<in> done_keys st then st
         else
           (case get_results_page net (c_base_url c) (c_event_main_group c) (c_event_code c)
                   (c_gender c) 1 st of
              (Inl e, st1) \<Rightarrow> st1
            | (Inr r, st1) \<Rightarrow>
                (let soup = resp_soup r;
                     total_count = parse_total_count soup
                 in if total_count = 0 then st1
                    else
                      (let st2 = page_loop net c [1..fetch_pages total_count] soup st1
                       in st2\<lparr>done_keys := insert key (done_keys st2)\<rparr>))))"

text \<open>
  \<open>category_from_code(o["value"])\<close> on a decoded value: the first turn of its loop calls
  \<open>code.upper()\<close>, which only a string has.
\<close>

fun category_of :: "json \<Rightarrow> exn + string" where
  "category_of (JStr code) = Inr (category_from_code code)"
| "category_of _ = Inl AttributeError"

text \<open>
  \<open>[o for o in event_opts if category_from_code(o["value"]) == "HYROX"]\<close>, the filter of
  \<open>main\<close> under \<open>ONLY_OPEN\<close>.
\<close>

fun open_filter :: "event_option list \<Rightarrow> exn + event_option list" where
  "open_filter [] = Inr []"
| "open_filter (opt # rest) =
     (case category_of (opt_value opt) of
        Inl e \<Rightarrow> Inl e
      | Inr cat \<Rightarrow>
          (case open_filter rest of
             Inl e \<Rightarrow> Inl e
           | Inr r \<Rightarrow> Inr (if cat = ''HYROX'' then opt # r else r)))"

text \<open>
  \<open>[o for o in event_opts if "OVERALL" in o["value"].upper()]\<close> when \<open>want\<close> is true, and
  the comprehension with \<open>not in\<close> when it is false.
\<close>

fun overall_filter :: "bool \<Rightarrow> event_option list \<Rightarrow> exn + event_option list" where
  "overall_filter want [] = Inr []"
| "overall_filter want (opt # rest) =
     (case str_upper (opt_value opt) of
        Inl e \<Rightarrow> Inl e
      | Inr u \<Rightarrow>
          (case overall_filter want rest of
             Inl e \<Rightarrow> Inl e
           | Inr r \<Rightarrow> Inr (if sublist ''OVERALL'' u = want then opt # r else r)))"

text \<open>\<open>use_opts = overall if overall else non_overall\<close>, with the two lists it chooses from.\<close>

definition use_opts :: "event_option list \<Rightarrow> exn + event_option list" where
  "use_opts event_opts =
     (case overall_filter True event_opts of
        Inl e \<Rightarrow> Inl e
      | Inr overall \<Rightarrow>
          (case overall_filter False event_opts of
             Inl e \<Rightarrow> Inl e
           | Inr non_overall \<Rightarrow> Inr (if overall \<noteq> [] then overall else non_overall)))"

text \<open>The loop \<open>for sex_code, sex_label in GENDERS\<close>; the combination's gender is filled in.\<close>

fun genders_loop :: "network \<Rightarrow> combo \<Rightarrow> (string \<times> string) list \<Rightarrow> run_state \<Rightarrow> run_state" where
  "genders_loop net c [] st = st"
| "genders_loop net c ((sex_code, sex_label) # rest) st =
     genders_loop net c rest (scrape_combo net (c\<lparr>c_gender := sex_code\<rparr>) st)"

text \<open>
  The loops of \<open>main\<close> return the exception that ends the run, if one does, and the state
  reached. \<open>for ev in use_opts\<close>:
\<close>

fun events_loop ::
  "network \<Rightarrow> string \<Rightarrow> string \<Rightarrow> json \<Rightarrow> event_option list \<Rightarrow> run_state \<Rightarrow> exn option \<times> run_state" where
  "events_loop net season base_url emg [] st = (None, st)"
| "events_loop net season base_url emg (ev # rest) st =
     (case opt_value ev of
        JStr ev_code \<Rightarrow>
          events_loop net season base_url emg rest
            (genders_loop net
               \<lparr>c_base_url = base_url, c_season = season, c_event_main_group = emg,
                c_event_code = ev_code, c_event_label = opt_text ev,
                c_category = category_from_code ev_code, c_gender = []\<rparr>
               GENDERS st)
      | _ \<Rightarrow> (Some AttributeError, st))"

text \<open>\<open>for eg in event_groups\<close>: an exception of \<open>get_event_codes\<close> skips the group.\<close>

fun groups_loop ::
  "network \<Rightarrow> string \<Rightarrow> string \<Rightarrow> event_option list \<Rightarrow> run_state \<Rightarrow> exn option \<times> run_state" where
  "groups_loop net season base_url [] st = (None, st)"
| "groups_loop net season base_url (eg # rest) st =
     (case get_event_codes net base_url (opt_value eg) st of
        (Inl e, st1) \<Rightarrow> groups_loop net season base_url rest st1
      | (Inr event_opts, st1) \<Rightarrow>
          if event_opts = [] then groups_loop net season base_url rest st1
          else
            (case (if ONLY_OPEN then open_filter event_opts else Inr event_opts) of
               Inl e \<Rightarrow> (Some e, st1)
             | Inr open_opts \<Rightarrow>
                 if open_opts = [] then groups_loop net season base_url rest st1
                 else
                   (case use_opts open_opts of
                      Inl e \<Rightarrow> (Some e, st1)
                    | Inr opts \<Rightarrow>
                        (case events_loop net season base_url (opt_value eg) opts st1 of
                           (Some e, st2) \<Rightarrow> (Some e, st2)
                         | (None, st2) \<Rightarrow> groups_loop net season base_url rest st2))))"

text \<open>\<open>for season, base_url in SEASON_BASES\<close>: an exception of \<open>get_event_groups\<close> skips the season.\<close>

fun seasons_loop ::
  "network \<Rightarrow> (string \<times> string) list \<Rightarrow> run_state \<Rightarrow> exn option \<times> run_state" where
  "seasons_loop net [] st = (None, st)"
| "seasons_loop net ((season, base_url) # rest) st =
     (case get_event_groups net base_url st of
        (Inl e, st1) \<Rightarrow> seasons_loop net rest st1
      | (Inr event_groups, st1) \<Rightarrow>
          if event_groups = [] then seasons_loop net rest st1
          else
            (case groups_loop net season base_url event_groups st1 of
               (Some e, st2) \<Rightarrow> (Some e, st2)
             | (None, st2) \<Rightarrow> seasons_loop net rest st2))"

text \<open>
  \<open>main\<close> on the rows the output file holds at startup: the done-set is loaded from them,
  and the file is opened for appending.
\<close>

definition main :: "network \<Rightarrow> csv_row list \<Rightarrow> exn option \<times> run_state" where
  "main net file_rows =
     seasons_loop net SEASON_BASES
       \<lparr>done_keys = load_done_keys file_rows, store = file_rows, exchanges = []\<rparr>"

section \<open>The dashboard's loader\<close>

text \<open>\<open>t.split(":")\<close>: the pieces of \<open>t\<close> between its colons.\<close>

fun split_colon :: "string \<Rightarrow> string list" where
  "split_colon [] = [[]]"
| "split_colon (x # xs) =
     (if x = CHR '':'' then [] # split_colon xs
      else (case split_colon xs of
              [] \<Rightarrow> [[x]]
            | w # ws \<Rightarrow> (x # w) # ws))"

text \<open>\<open>\d+\<close> and \<open>\d{2}\<close> on a whole piece.\<close>

definition some_digits :: "string \<Rightarrow> bool" where
  "some_digits s = (s \<noteq> [] \<and> list_all is_digit s)"

definition two_digits :: "string \<Rightarrow> bool" where
  "two_digits s = (length s = 2 \<and> list_all is_digit s)"

text \<open>
  \<open>re.fullmatch(r"(\d+):(\d{2}):(\d{2})", t)\<close> and \<open>re.fullmatch(r"(\d+):(\d{2})", t)\<close>,
  with the groups of the match. No digit is a colon, so the whole string matches exactly
  when its pieces between the colons match the groups.
\<close>

definition fullmatch_hms :: "string \<Rightarrow> (string \<times> string \<times> string) option" where
  "fullmatch_hms t =
     (case split_colon t of
        [h, m, s] \<Rightarrow> if some_digits h \<and> two_digits m \<and> two_digits s then Some (h, m, s) else None
      | _ \<Rightarrow> None)"

definition fullmatch_ms :: "string \<Rightarrow> (string \<times> string) option" where
  "fullmatch_ms t =
     (case split_colon t of
        [m, s] \<Rightarrow> if some_digits m \<and> two_digits s then Some (m, s) else None
      | _ \<Rightarrow> None)"

text \<open>
  \<open>to_seconds\<close> on a cell of the \<open>total_time\<close> column, read with \<open>dtype=str\<close>: a string, or
  the missing value (\<open>None\<close> here), for which \<open>pd.isna\<close> holds.
\<close>

definition to_seconds :: "string option \<Rightarrow> int option" where
  "to_seconds cell =
     (case cell of
        None \<Rightarrow> None
      | Some t0 \<Rightarrow>
          (let t = strip t0
           in case fullmatch_hms t of
                Some (h, m, s) \<Rightarrow>
                  Some (int_of_digits h * 3600 + int_of_digits m * 60 + int_of_digits s)
              | None \<Rightarrow>
                  (case fullmatch_ms t of
                     Some (m, s) \<Rightarrow> Some (int_of_digits m * 60 + int_of_digits s)
                   | None \<Rightarrow> None)))"

text \<open>
  A record of the data frame: its \<open>total_time\<close> cell and its other cells. \<open>load_data\<close>
  adds the column \<open>total_seconds\<close> and ends with \<open>df.dropna(subset=["total_seconds"])\<close>;
  the other columns it derives (\<open>rank\<close>, \<open>year\<close>, \<open>display_label\<close>) do not decide which
  records stay and are left out.
\<close>

record df_record =
  total_time_cell :: "string option"
  other_cells :: "string option list"

definition load_data :: "df_record list \<Rightarrow> (df_record \<times> int) list" where
  "load_data df =
     List.map_filter (\<lambda>r. map_option (\<lambda>secs. (r, secs)) (to_seconds (total_time_cell r))) df"

section \<open>What a run did\<close>

text \<open>
  The vocabulary the statements about a run use: the request for a page of a combination,
  the key (event code, gender) a request or a row is for, the exchanges and the rows a step
  from \<open>st\<close> to \<open>st'\<close> added, and the rows the program writes for the response to a page.
\<close>

definition page_request :: "combo \<Rightarrow> int \<Rightarrow> request" where
  "page_request c p =
     ResultsPage (c_base_url c) (c_event_main_group c) (c_event_code c) (c_gender c) p"

definition combo_key :: "combo \<Rightarrow> string \<times> string" where
  "combo_key c = (c_event_code c, c_gender c)"

fun request_key :: "request \<Rightarrow> (string \<times> string) option" where
  "request_key (SearchFields base_url emg) = None"
| "request_key (ResultsPage base_url emg code sex page) = Some (code, sex)"

definition row_key :: "csv_row \<Rightarrow> string \<times> string" where
  "row_key r = (r_event_code r, r_gender r)"

definition new_exchanges :: "run_state \<Rightarrow> run_state \<Rightarrow> exchange list" where
  "new_exchanges st st' = drop (length (exchanges st)) (exchanges st')"

definition new_rows :: "run_state \<Rightarrow> run_state \<Rightarrow> csv_row list" where
  "new_rows st st' = drop (length (store st)) (store st')"

fun failed :: "exchange \<Rightarrow> bool" where
  "failed (req, Inl e) = True"
| "failed (req, Inr r) = False"

fun page_rows :: "combo \<Rightarrow> exchange \<Rightarrow> csv_row list" where
  "page_rows c (req, Inl e) = []"
| "page_rows c (req, Inr r) = map (writerow c) (parse_result_rows (resp_soup r))"

section \<open>Example inputs\<close>

text \<open>
  Concrete documents, remote sites and states on which the statements below are run: a
  results page with its count line, a header row and one athlete row without nationality;
  a site that always answers with one page, and a site that answers the pages before
  page \<open>k\<close> only.
\<close>

definition count_soup :: "string \<Rightarrow> html" where
  "count_soup txt =
     Elem ''[document]'' [] [Elem ''div'' [''list-info__text'', ''str_num''] [Text txt]]"

definition answer :: "html \<Rightarrow> outcome" where
  "answer soup = Inr \<lparr>resp_json = None, resp_soup = soup\<rparr>"

definition net_always :: "html \<Rightarrow> network" where
  "net_always soup h req = answer soup"

definition net_until :: "int \<Rightarrow> html \<Rightarrow> network" where
  "net_until k soup h req =
     (case req of
        SearchFields base_url emg \<Rightarrow> Inl RequestError
      | ResultsPage base_url emg code sex page \<Rightarrow>
          if page < k then answer soup else Inl RequestError)"

definition demo_combo :: combo where
  "demo_combo = \<lparr>c_base_url = ''https://results.hyrox.com/season-8/'', c_season = ''Season 8'',
     c_event_main_group = JStr ''2025 Wien'', c_event_code = ''H_OVERALL'',
     c_event_label = JStr ''HYROX - Overall'', c_category = ''HYROX'', c_gender = ''M''\<rparr>"

definition fresh :: run_state where
  "fresh = \<lparr>done_keys = {}, store = [], exchanges = []\<rparr>"

definition header_row :: html where
  "header_row =
     Elem ''li'' [''list-group-item'', ''row'', ''list-group-header'']
       [Elem ''div'' [''list-field'', ''type-place'', ''place-primary''] [Text ''Rank''],
        Elem ''div'' [''list-field'', ''type-fullname''] [Text ''Name''],
        Elem ''div'' [''list-field'', ''type-time''] [Text ''Total'']]"

definition athlete_row :: html where
  "athlete_row =
     Elem ''li'' [''list-group-item'', ''row'']
       [Elem ''div'' [''list-field'', ''type-place'', ''place-primary'', ''numeric'']
          [Elem ''div'' [''visible-xs-block'', ''list-label''] [Text ''Rank''], Text '' 1 ''],
        Elem ''h4'' [''list-field'', ''type-fullname'']
          [Elem ''a'' [] [Text ''Doe, John'']],
        Elem ''div'' [''list-field'', ''type-age_class'']
          [Elem ''div'' [''visible-sm-block'', ''list-label''] [Text ''Age Group''], Text ''30-34''],
        Elem ''div'' [''list-field'', ''type-time'']
          [Elem ''div'' [''visible-xs-block'', ''list-label''] [Text ''Total''], Text ''0:52:13'']]"

definition results_soup :: "string \<Rightarrow> html" where
  "results_soup txt =
     Elem ''[document]'' []
       [Elem ''div'' [''list-info''] [Elem ''div'' [''list-info__text'', ''str_num''] [Text txt]],
        Elem ''ul'' [''list-group'', ''list-group-multicolumn''] [header_row, athlete_row]]"

definition demo_row :: csv_row where
  "demo_row = \<lparr>r_season = ''Season 8'', r_event_main_group = JStr ''2025 Wien'',
      r_event_code = ''H_OVERALL'', r_event_label = JStr ''HYROX - Overall'',
      r_category = ''HYROX'', r_gender = ''M'', r_rank = ''1'', r_athlete = ''Doe, John'',
      r_nationality = [], r_age_group = ''30-34'', r_total_time = ''0:52:13''\<rparr>"

section \<open>Steps of a run\<close>

text \<open>
  \<open>extends st st'\<close>: from \<open>st\<close> to \<open>st'\<close> the done-set grew, exchanges and rows were appended,
  no appended results-page request and no appended row is for a key done in \<open>st\<close>, and the
  keys of the stored rows stay within the done-set if they were.
\<close>

definition extends :: "run_state \<Rightarrow> run_state \<Rightarrow> bool" where
  "extends st st' =
     (done_keys st \<subseteq> done_keys st'
      \<and> (\<exists>new. exchanges st' = exchanges st @ new
             \<and> (\<forall>x \<in> set new. \<forall>k. request_key (fst x) = Some k \<longrightarrow> k \<notin> done_keys st))
      \<and> (\<exists>rows. store st' = store st @ rows \<and> (\<forall>r \<in> set rows. row_key r \<notin> done_keys st))
      \<and> (load_done_keys (store st) \<subseteq> done_keys st
           \<longrightarrow> load_done_keys (store st') \<subseteq> done_keys st'))"

text \<open>
  A discovery response with one event group, one with three event codes, the site that
  serves them for season 8 and answers every results page with the example page, and the
  options the program reads from the two responses.
\<close>

definition groups_json :: json where
  "groups_json =
     JObj [(''branches'', JObj [(''lists'', JObj [(''fields'',
       JObj [(''event_main_group'',
         JObj [(''data'', JArr [JObj [(''v'', JArr [JStr ''2025 Wien'', JStr ''2025 Wien''])]])])])])])]"

definition codes_json :: json where
  "codes_json =
     JObj [(''branches'', JObj [(''lists'', JObj [(''fields'',
       JObj [(''event'',
         JObj [(''data'', JArr
           [JObj [(''v'', JArr [JStr ''H_OVERALL'', JStr ''HYROX - Overall''])],
            JObj [(''v'', JArr [JStr ''HPRO_OVERALL'', JStr ''HYROX PRO - Overall''])],
            JObj [(''v'', JArr [JStr ''H_SAT'', JStr ''HYROX - Saturday''])]])])])])])]"

definition demo_site :: network where
  "demo_site h req =
     (case req of
        SearchFields base_url emg \<Rightarrow>
          if base_url = ''https://results.hyrox.com/season-8/'' then
            Inr \<lparr>resp_json = Some (case emg of None \<Rightarrow> groups_json | Some g \<Rightarrow> codes_json),
                 resp_soup = Text []\<rparr>
          else Inl RequestError
      | ResultsPage base_url emg code sex page \<Rightarrow> answer (results_soup ''30 Results''))"

definition demo_group :: event_option where
  "demo_group = \<lparr>opt_value = JStr ''2025 Wien'', opt_text = JStr ''2025 Wien''\<rparr>"

definition opt_overall :: event_option where
  "opt_overall = \<lparr>opt_value = JStr ''H_OVERALL'', opt_text = JStr ''HYROX - Overall''\<rparr>"

definition opt_pro :: event_option where
  "opt_pro = \<lparr>opt_value = JStr ''HPRO_OVERALL'', opt_text = JStr ''HYROX PRO - Overall''\<rparr>"

definition opt_saturday :: event_option where
  "opt_saturday = \<lparr>opt_value = JStr ''H_SAT'', opt_text = JStr ''HYROX - Saturday''\<rparr>"

section \<open>Example records and responses\<close>

text \<open>A record of the data frame that holds a total-time cell and nothing else.\<close>

definition time_record :: "string option \<Rightarrow> df_record" where
  "time_record cell = \<lparr>total_time_cell = cell, other_cells = []\<rparr>"

text \<open>
  The two paths \<open>get_event_codes\<close> follows, a response with the events at the top level
  (its second item has one element only, its third no \<open>v\<close>), a response with neither
  path, and the site that answers every request with one body.
\<close>

definition nested_path :: "string list" where
  "nested_path = [''branches'', ''lists'', ''fields'', ''event'', ''data'']"

definition top_path :: "string list" where
  "top_path = [''event'', ''data'']"

definition top_level_json :: json where
  "top_level_json =
     JObj [(''event'', JObj [(''data'',
       JArr [JObj [(''v'', JArr [JStr ''H_SAT'', JStr ''HYROX - Saturday''])],
             JObj [(''v'', JArr [JStr ''only one''])],
             JObj [(''x'', JNull)]])])]"

definition net_json :: "json option \<Rightarrow> network" where
  "net_json body h req = Inr \<lparr>resp_json = body, resp_soup = Text []\<rparr>"

definition other_json :: json where
  "other_json = JObj [(''branches'', JArr []), (''event'', JStr ''data'')]"

section \<open>Event options with string codes\<close>

text \<open>
  The code of an option whose value is a string, whether that code contains \<open>OVERALL\<close>
  once upper-cased, and an option whose code starts with no configured prefix.
\<close>

fun is_str :: "json \<Rightarrow> bool" where
  "is_str (JStr s) = True"
| "is_str _ = False"

fun code_of :: "event_option \<Rightarrow> string" where
  "code_of opt = (case opt_value opt of JStr s \<Rightarrow> s | _ \<Rightarrow> [])"

definition has_overall :: "event_option \<Rightarrow> bool" where
  "has_overall opt = (is_str (opt_value opt) \<and> sublist ''OVERALL'' (upper (code_of opt)))"

definition opt_unknown :: event_option where
  "opt_unknown = \<lparr>opt_value = JStr ''xyz_2024'', opt_text = JStr ''Side event''\<rparr>"

section \<open>The texts of a row\<close>

text \<open>
  The five texts the loop body of \<open>parse_result_rows\<close> reads from a row, after the mobile
  labels are removed.
\<close>

definition rank_text :: "html \<Rightarrow> string" where
  "rank_text row = text_or_empty (rank_el (remove_labels row))"

definition name_text :: "html \<Rightarrow> string" where
  "name_text row = text_or_empty (name_el (remove_labels row))"

definition nat_text :: "html \<Rightarrow> string" where
  "nat_text row = text_or_empty (nat_el (remove_labels row))"

definition age_text :: "html \<Rightarrow> string" where
  "age_text row = text_or_empty (age_el (remove_labels row))"

definition time_text :: "html \<Rightarrow> string" where
  "time_text row = text_or_empty (time_el (remove_labels row))"

section \<open>Example characters\<close>

text \<open>The no-break space, which \<open>str.strip\<close> removes.\<close>

definition nbsp :: char where
  "nbsp = CHR 0xA0"

section \<open>The combinations one event group is scraped for\<close>

text \<open>
  The arguments of the call of \<open>scrape_combo\<close> that \<open>main\<close> makes for an event option (the
  one gender of \<open>GENDERS\<close> is \<open>M\<close>), the calls for a list of options one after the other,
  and a site whose event group offers the codes \<open>H_OVERALL\<close> and \<open>xyz_2024\<close>.
\<close>

definition combo_for :: "string \<Rightarrow> string \<Rightarrow> json \<Rightarrow> event_option \<Rightarrow> combo" where
  "combo_for season base_url emg opt =
     \<lparr>c_base_url = base_url, c_season = season, c_event_main_group = emg,
      c_event_code = code_of opt, c_event_label = opt_text opt,
      c_category = category_from_code (code_of opt), c_gender = ''M''\<rparr>"

definition scrape_all ::
  "network \<Rightarrow> string \<Rightarrow> string \<Rightarrow> json \<Rightarrow> event_option list \<Rightarrow> run_state \<Rightarrow> run_state" where
  "scrape_all net season base_url emg opts st =
     foldl (\<lambda>st opt. scrape_combo net (combo_for season base_url emg opt) st) st opts"

definition mixed_json :: json where
  "mixed_json =
     JObj [(''branches'', JObj [(''lists'', JObj [(''fields'',
       JObj [(''event'',
         JObj [(''data'', JArr
           [JObj [(''v'', JArr [JStr ''H_OVERALL'', JStr ''HYROX - Overall''])],
            JObj [(''v'', JArr [JStr ''xyz_2024'', JStr ''Side event''])]])])])])])]"

definition mixed_site :: network where
  "mixed_site h req =
     (case req of
        SearchFields base_url emg \<Rightarrow>
          if base_url = ''https://results.hyrox.com/season-8/'' then
            Inr \<lparr>resp_json = Some (case emg of None \<Rightarrow> groups_json | Some g \<Rightarrow> mixed_json),
                 resp_soup = Text []\<rparr>
          else Inl RequestError
      | ResultsPage base_url emg code sex page \<Rightarrow> answer (results_soup ''30 Results''))"

section \<open>A row whose name is white space\<close>

definition nbsp_row :: html where
  "nbsp_row =
     Elem ''li'' [''list-group-item'', ''row'']
       [Elem ''div'' [''list-field'', ''type-place'', ''place-primary''] [Text ''7''],
        Elem ''h4'' [''list-field'', ''type-fullname''] [Text [nbsp, CHR 0x85]],
        Elem ''div'' [''list-field'', ''type-time''] [Text ''1:10:00'']]"

section \<open>Evaluation on literals\<close>

lemmas str_eval = upper_def upper_char_def lower_def lower_char_def
  ascii_lowercase_def ascii_uppercase_def

section \<open>The category classifier returns the longest matching prefix's label\<close>

text \<open>
  No configured prefix is a prefix of another one, so at most one of them matches a code:
  the first match of the loop is the only match, and so the longest.
\<close>

lemma category_loop_no_match:
  "\<forall>(p, n) \<in> set tbl. \<not> prefix p (upper code) \<Longrightarrow> category_loop tbl code = ''HYROX''"
  by (induction tbl) auto

lemma category_loop_agree:
  assumes "(p, n) \<in> set tbl" and "prefix p (upper code)"
    and "\<forall>(q, m) \<in> set tbl. prefix q (upper code) \<longrightarrow> m = n"
  shows "category_loop tbl code = n"
  using assms
proof (induction tbl)
  case Nil
  then show ?case by simp
next
  case (Cons a tbl)
  obtain q m where a: "a = (q, m)" by (cases a)
  show ?case
  proof (cases "prefix q (upper code)")
    case True
    with Cons.prems(3) a show ?thesis by simp
  next
    case False
    with Cons.prems(1,2) a have "(p, n) \<in> set tbl" by auto
    with Cons.IH Cons.prems(2,3) False a show ?thesis by simp
  qed
qed

lemma prefix_free:
  "\<forall>(p, n) \<in> set CATEGORY_PREFIXES. \<forall>(q, m) \<in> set CATEGORY_PREFIXES. prefix p q \<longrightarrow> p = q \<and> n = m"
  by (simp add: CATEGORY_PREFIXES_def)

lemma prefixes_exclusive:
  assumes "(p, n) \<in> set CATEGORY_PREFIXES" and "(q, m) \<in> set CATEGORY_PREFIXES"
    and "prefix p u" and "prefix q u"
  shows "p = q \<and> n = m"
proof -
  from assms(3,4) have "prefix p q \<or> prefix q p"
    by (rule prefix_same_cases)
  with assms(1,2) prefix_free show ?thesis
    by blast
qed

lemma category_of_match:
  assumes "(p, n) \<in> set CATEGORY_PREFIXES" and "prefix p (upper code)"
  shows "category_from_code code = n"
proof -
  have "\<forall>(q, m) \<in> set CATEGORY_PREFIXES. prefix q (upper code) \<longrightarrow> m = n"
    using prefixes_exclusive[OF assms(1) _ assms(2)] by blast
  with assms show ?thesis
    unfolding category_from_code_def by (rule category_loop_agree)
qed

text \<open>
  Claim C3. \<open>category_from_code\<close> is a function of the event code alone. Whenever a
  configured prefix is a prefix of the upper-cased code (a case-insensitive match) and no
  matching configured prefix is longer, the result is the label of that prefix; when no
  configured prefix matches, the result is the default label \<open>HYROX\<close>.
\<close>

theorem category_from_code_longest_prefix:
  "(\<forall>(p, n) \<in> set CATEGORY_PREFIXES.
      prefix p (upper code) \<and>
      (\<forall>(q, m) \<in> set CATEGORY_PREFIXES. prefix q (upper code) \<longrightarrow> length q \<le> length p)
      \<longrightarrow> category_from_code code = n)
   \<and> ((\<forall>(p, n) \<in> set CATEGORY_PREFIXES. \<not> prefix p (upper code))
      \<longrightarrow> category_from_code code = ''HYROX'')"
proof -
  have first: "category_from_code code = n"
    if "(p, n) \<in> set CATEGORY_PREFIXES" and "prefix p (upper code)" for p n
    using that by (rule category_of_match)
  have second: "category_from_code code = ''HYROX''"
    if "\<forall>(p, n) \<in> set CATEGORY_PREFIXES. \<not> prefix p (upper code)"
    unfolding category_from_code_def using that by (rule category_loop_no_match)
  from first second show ?thesis by blast
qed

theorem category_from_code_longest_prefix_witness:
  "prefix ''HDP_'' (upper ''hdp_2024_Wien'')
   \<and> category_from_code ''hdp_2024_Wien'' = ''HYROX PRO DOUBLES''
   \<and> category_from_code ''2024_wien'' = ''HYROX''"
proof -
  have up: "upper ''hdp_2024_Wien'' = ''HDP_2024_WIEN''" "upper ''2024_wien'' = ''2024_WIEN''"
    by (simp_all add: str_eval)
  have mem: "(''HDP_'', ''HYROX PRO DOUBLES'') \<in> set CATEGORY_PREFIXES"
    by (simp add: CATEGORY_PREFIXES_def)
  have m: "prefix ''HDP_'' (upper ''hdp_2024_Wien'')"
    by (simp add: up)
  have a: "category_from_code ''hdp_2024_Wien'' = ''HYROX PRO DOUBLES''"
    using category_from_code_longest_prefix
      [of "''hdp_2024_Wien''", THEN conjunct1, rule_format, OF mem]
    by (simp add: up CATEGORY_PREFIXES_def)
  have b: "category_from_code ''2024_wien'' = ''HYROX''"
    using category_from_code_longest_prefix [of "''2024_wien''", THEN conjunct2]
    by (simp add: up CATEGORY_PREFIXES_def)
  show ?thesis
    by (intro conjI m a b)
qed

section \<open>Page arithmetic and the page loop\<close>

lemma total_pages_ceiling:
  "total_pages T = \<lceil>real_of_int T / real_of_int PER_PAGE\<rceil>"
proof -
  define k where "k = (T + 24) div 25"
  have split: "T + 24 = 25 * k + (T + 24) mod 25"
    unfolding k_def by (rule mult_div_mod_eq[symmetric])
  have "0 \<le> (T + 24) mod 25" and "(T + 24) mod 25 < 25"
    by simp_all
  with split have lo: "25 * k - 25 < T" and hi: "T \<le> 25 * k"
    by linarith+
  from lo have "real_of_int (25 * k - 25) < real_of_int T"
    by (simp only: of_int_less_iff)
  then have lo': "real_of_int k - 1 < real_of_int T / 25"
    by simp
  from hi have "real_of_int T \<le> real_of_int (25 * k)"
    by (simp only: of_int_le_iff)
  then have hi': "real_of_int T / 25 \<le> real_of_int k"
    by simp
  from lo' hi' have "\<lceil>real_of_int T / 25\<rceil> = k"
    by (rule ceiling_unique)
  then show ?thesis
    by (simp add: total_pages_def PER_PAGE_def k_def)
qed

lemma fetch_pages_bounds:
  assumes "0 < T"
  shows "1 \<le> fetch_pages T" and "fetch_pages T \<le> MAX_PAGES"
proof -
  from assms have "25 \<le> T + 24" by simp
  then have "25 div 25 \<le> (T + 24) div 25"
    by (rule zdiv_mono1) simp
  then have "1 \<le> total_pages T"
    by (simp add: total_pages_def PER_PAGE_def)
  then show "1 \<le> fetch_pages T"
    by (simp add: fetch_pages_def MAX_PAGES_def)
  show "fetch_pages T \<le> MAX_PAGES"
    by (simp add: fetch_pages_def)
qed

lemma polite_get_state:
  "snd (polite_get net req st) = st\<lparr>exchanges := exchanges st @ [(req, net (exchanges st) req)]\<rparr>"
  "fst (polite_get net req st) = net (exchanges st) req"
  by (simp_all add: polite_get_def Let_def)

text \<open>The page loop on pages after the first.\<close>

lemma page_loop_trace:
  assumes "\<forall>p \<in> set ps. 1 < p"
  shows "\<exists>new. exchanges (page_loop net c ps soup st) = exchanges st @ new
           \<and> prefix (map fst new) (map (page_request c) ps)
           \<and> (\<forall>x \<in> set (butlast new). \<not> failed x)
           \<and> ((\<forall>x \<in> set new. \<not> failed x) \<longrightarrow> length new = length ps)
           \<and> store (page_loop net c ps soup st) = store st @ concat (map (page_rows c) new)
           \<and> done_keys (page_loop net c ps soup st) = done_keys st"
  using assms
proof (induction ps arbitrary: soup st)
  case Nil
  show ?case by (rule exI[of _ "[]"]) simp
next
  case (Cons p ps)
  let ?req = "page_request c p"
  let ?out = "net (exchanges st) ?req"
  let ?st' = "st\<lparr>exchanges := exchanges st @ [(?req, ?out)]\<rparr>"
  from Cons.prems have p: "1 < p" and ps: "\<forall>p \<in> set ps. 1 < p" by simp_all
  show ?case
  proof (cases ?out)
    case (Inl e)
    then have run: "page_loop net c (p # ps) soup st = ?st'"
      using p by (simp add: get_results_page_def polite_get_def page_request_def Let_def)
    show ?thesis
      by (rule exI[of _ "[(?req, ?out)]"]) (simp add: run Inl del: page_loop.simps)
  next
    case (Inr r)
    let ?st'' = "write_page c (resp_soup r) ?st'"
    from Inr have run: "page_loop net c (p # ps) soup st = page_loop net c ps (resp_soup r) ?st''"
      using p by (simp add: get_results_page_def polite_get_def page_request_def Let_def)
    from Cons.IH[OF ps, of "resp_soup r" ?st''] obtain new where
      new: "exchanges (page_loop net c ps (resp_soup r) ?st'') = exchanges ?st'' @ new"
        "prefix (map fst new) (map (page_request c) ps)"
        "\<forall>x \<in> set (butlast new). \<not> failed x"
        "(\<forall>x \<in> set new. \<not> failed x) \<longrightarrow> length new = length ps"
        "store (page_loop net c ps (resp_soup r) ?st'') = store ?st'' @ concat (map (page_rows c) new)"
        "done_keys (page_loop net c ps (resp_soup r) ?st'') = done_keys ?st''"
      by blast
    show ?thesis
    proof (rule exI[of _ "(?req, ?out) # new"], intro conjI)
      show "exchanges (page_loop net c (p # ps) soup st) = exchanges st @ (?req, ?out) # new"
        unfolding run new(1) by (simp add: write_page_def)
      show "prefix (map fst ((?req, ?out) # new)) (map (page_request c) (p # ps))"
        using new(2) by simp
      show "\<forall>x \<in> set (butlast ((?req, ?out) # new)). \<not> failed x"
        using new(3) Inr by (cases new) simp_all
      show "(\<forall>x \<in> set ((?req, ?out) # new). \<not> failed x) \<longrightarrow>
              length ((?req, ?out) # new) = length (p # ps)"
        using new(4) by simp
      show "store (page_loop net c (p # ps) soup st)
              = store st @ concat (map (page_rows c) ((?req, ?out) # new))"
        unfolding run new(5) by (simp add: write_page_def Inr)
      show "done_keys (page_loop net c (p # ps) soup st) = done_keys st"
        unfolding run new(6) by (simp add: write_page_def)
    qed
  qed
qed

lemma foldl_digits_nonneg:
  "0 \<le> a \<Longrightarrow> 0 \<le> foldl (\<lambda>a c. 10 * a + digit_val c) a s"
  by (induction s arbitrary: a) (simp_all add: digit_val_def)

lemma parse_total_count_nonneg: "0 \<le> parse_total_count soup"
  by (simp add: parse_total_count_def int_of_digits_def foldl_digits_nonneg
      split: option.split)

lemma write_page_fields:
  "exchanges (write_page c soup st) = exchanges st"
  "done_keys (write_page c soup st) = done_keys st"
  "store (write_page c soup st) = store st @ map (writerow c) (parse_result_rows soup)"
  by (simp_all add: write_page_def)

lemma scrape_combo_skip:
  "combo_key c \<in> done_keys st \<Longrightarrow> scrape_combo net c st = st"
  by (simp add: scrape_combo_def combo_key_def)

lemma scrape_combo_page1_error:
  assumes "combo_key c \<notin> done_keys st" and "net (exchanges st) (page_request c 1) = Inl e"
  shows "scrape_combo net c st = st\<lparr>exchanges := exchanges st @ [(page_request c 1, Inl e)]\<rparr>"
  using assms
  by (simp add: scrape_combo_def combo_key_def get_results_page_def polite_get_def
      page_request_def Let_def)

lemma scrape_combo_empty:
  assumes "combo_key c \<notin> done_keys st" and "net (exchanges st) (page_request c 1) = Inr r"
    and "parse_total_count (resp_soup r) = 0"
  shows "scrape_combo net c st = st\<lparr>exchanges := exchanges st @ [(page_request c 1, Inr r)]\<rparr>"
  using assms
  by (simp add: scrape_combo_def combo_key_def get_results_page_def polite_get_def
      page_request_def Let_def)

lemma upto_from_1: "1 \<le> n \<Longrightarrow> [1..n] = 1 # [2..n]"
  by (simp add: upto_rec1)

lemma scrape_combo_pages:
  assumes "combo_key c \<notin> done_keys st" and "net (exchanges st) (page_request c 1) = Inr r"
    and "parse_total_count (resp_soup r) = T" and "T \<noteq> 0"
  shows "scrape_combo net c st =
           (page_loop net c [2..fetch_pages T] (resp_soup r)
              (write_page c (resp_soup r)
                 (st\<lparr>exchanges := exchanges st @ [(page_request c 1, Inr r)]\<rparr>)))
           \<lparr>done_keys := insert (combo_key c)
              (done_keys (page_loop net c [2..fetch_pages T] (resp_soup r)
                 (write_page c (resp_soup r)
                    (st\<lparr>exchanges := exchanges st @ [(page_request c 1, Inr r)]\<rparr>))))\<rparr>"
proof -
  from assms(3,4) parse_total_count_nonneg[of "resp_soup r"] have "0 < T" by simp
  then have "1 \<le> fetch_pages T" by (rule fetch_pages_bounds)
  then have pages: "[1..fetch_pages T] = 1 # [2..fetch_pages T]" by (rule upto_from_1)
  show ?thesis
    using assms
    by (simp add: scrape_combo_def combo_key_def get_results_page_def polite_get_def
        page_request_def Let_def pages)
qed

text \<open>What a call that reaches the page loop did.\<close>

lemma scrape_combo_trace:
  assumes "combo_key c \<notin> done_keys st" and "net (exchanges st) (page_request c 1) = Inr r"
    and "parse_total_count (resp_soup r) = T" and "T \<noteq> 0"
  shows "\<exists>new. exchanges (scrape_combo net c st)
               = exchanges st @ (page_request c 1, Inr r) # new
           \<and> prefix (map fst new) (map (page_request c) [2..fetch_pages T])
           \<and> (\<forall>x \<in> set (butlast new). \<not> failed x)
           \<and> ((\<forall>x \<in> set new. \<not> failed x) \<longrightarrow> length new = length [2..fetch_pages T])
           \<and> store (scrape_combo net c st)
               = store st @ concat (map (page_rows c) ((page_request c 1, Inr r) # new))
           \<and> done_keys (scrape_combo net c st) = insert (combo_key c) (done_keys st)"
proof -
  let ?st1 = "st\<lparr>exchanges := exchanges st @ [(page_request c 1, Inr r)]\<rparr>"
  let ?st1' = "write_page c (resp_soup r) ?st1"
  let ?st2 = "page_loop net c [2..fetch_pages T] (resp_soup r) ?st1'"
  have run: "scrape_combo net c st = ?st2\<lparr>done_keys := insert (combo_key c) (done_keys ?st2)\<rparr>"
    using assms by (rule scrape_combo_pages)
  have "\<forall>p \<in> set [2..fetch_pages T]. 1 < p" by simp
  from page_loop_trace[OF this, of net c "resp_soup r" ?st1'] obtain new where
    new: "exchanges ?st2 = exchanges ?st1' @ new"
      "prefix (map fst new) (map (page_request c) [2..fetch_pages T])"
      "\<forall>x \<in> set (butlast new). \<not> failed x"
      "(\<forall>x \<in> set new. \<not> failed x) \<longrightarrow> length new = length [2..fetch_pages T]"
      "store ?st2 = store ?st1' @ concat (map (page_rows c) new)"
      "done_keys ?st2 = done_keys ?st1'"
    by blast
  show ?thesis
  proof (rule exI[of _ new], intro conjI)
    show "exchanges (scrape_combo net c st) = exchanges st @ (page_request c 1, Inr r) # new"
      by (simp add: run new(1) write_page_fields)
    show "store (scrape_combo net c st)
            = store st @ concat (map (page_rows c) ((page_request c 1, Inr r) # new))"
      by (simp add: run new(5) write_page_fields)
    show "done_keys (scrape_combo net c st) = insert (combo_key c) (done_keys st)"
      by (simp add: run new(6) write_page_fields)
  qed (fact new(2) new(3) new(4))+
qed

lemmas soup_eval = parse_total_count_def find_first_def count_soup_def class_matches_def
  search_number_def is_digit_def digits_def int_of_digits_def digit_val_def get_text_def

lemma count_30: "parse_total_count (count_soup ''30 Results'') = 30"
  by (simp add: soup_eval)

lemma count_75: "parse_total_count (count_soup ''1,875 Results'') = 1875"
  by (simp add: soup_eval)

lemma count_none: "parse_total_count (count_soup ''No results'') = 0"
  by (simp add: soup_eval)

lemma no_rows: "parse_result_rows (count_soup txt) = []"
  by (simp add: parse_result_rows_def count_soup_def is_row_def)

lemma new_exchanges_append: "exchanges st' = exchanges st @ new \<Longrightarrow> new_exchanges st st' = new"
  by (simp add: new_exchanges_def)

lemma new_rows_append: "store st' = store st @ rows \<Longrightarrow> new_rows st st' = rows"
  by (simp add: new_rows_def)

text \<open>The four ways through \<open>scrape_combo\<close>.\<close>

lemma scrape_combo_cases:
  obtains
    (skip) "combo_key c \<in> done_keys st" "scrape_combo net c st = st"
  | (error) e where "combo_key c \<notin> done_keys st"
      "net (exchanges st) (page_request c 1) = Inl e"
      "scrape_combo net c st = st\<lparr>exchanges := exchanges st @ [(page_request c 1, Inl e)]\<rparr>"
  | (empty) r where "combo_key c \<notin> done_keys st"
      "net (exchanges st) (page_request c 1) = Inr r" "parse_total_count (resp_soup r) = 0"
      "scrape_combo net c st = st\<lparr>exchanges := exchanges st @ [(page_request c 1, Inr r)]\<rparr>"
  | (pages) r where "combo_key c \<notin> done_keys st"
      "net (exchanges st) (page_request c 1) = Inr r" "parse_total_count (resp_soup r) \<noteq> 0"
proof (cases "combo_key c \<in> done_keys st")
  case True
  then show ?thesis using skip scrape_combo_skip by blast
next
  case False
  show ?thesis
  proof (cases "net (exchanges st) (page_request c 1)")
    case (Inl e)
    with False show ?thesis using error scrape_combo_page1_error by blast
  next
    case (Inr r)
    show ?thesis
    proof (cases "parse_total_count (resp_soup r) = 0")
      case True
      with False Inr show ?thesis using empty scrape_combo_empty by blast
    next
      case nz: False
      with False Inr show ?thesis using pages by blast
    qed
  qed
qed

lemma prefix_same_length: "prefix xs ys \<Longrightarrow> length xs = length ys \<Longrightarrow> xs = ys"
  by (auto simp: prefix_def)

lemma pages_length:
  assumes "prefix (map fst new) (map (page_request c) [2..n])"
  shows "int (length new) + 1 \<le> max 1 n"
proof -
  from assms have "length (map fst new) \<le> length (map (page_request c) [2..n])"
    by (rule prefix_length_le)
  then show ?thesis by simp
qed

lemma scrape_combo_at_most_cap:
  "length (new_exchanges st (scrape_combo net c st)) \<le> 4"
proof (cases rule: scrape_combo_cases[of c st net])
  case skip
  then show ?thesis by (simp add: new_exchanges_def)
next
  case (error e)
  then show ?thesis by (simp add: new_exchanges_def)
next
  case (empty r)
  then show ?thesis by (simp add: new_exchanges_def)
next
  case (pages r)
  from scrape_combo_trace[where net=net and c=c and st=st, OF pages(1,2) refl pages(3)] obtain new where
    new: "exchanges (scrape_combo net c st) = exchanges st @ (page_request c 1, Inr r) # new"
      "prefix (map fst new)
         (map (page_request c) [2..fetch_pages (parse_total_count (resp_soup r))])"
    by blast
  from pages_length[OF new(2)]
  have "int (length new) + 1 \<le> max 1 (fetch_pages (parse_total_count (resp_soup r)))" .
  also have "\<dots> \<le> 4" by (simp add: fetch_pages_def MAX_PAGES_def)
  finally have "length new + 1 \<le> 4" by simp
  with new_exchanges_append[OF new(1)] show ?thesis by simp
qed

lemma scrape_combo_page_requests:
  assumes "combo_key c \<notin> done_keys st" and "net (exchanges st) (page_request c 1) = Inr r"
    and "parse_total_count (resp_soup r) = T" and "0 < T"
  shows "prefix (map fst (new_exchanges st (scrape_combo net c st)))
           (map (page_request c) [1..fetch_pages T])"
    and "(\<forall>x \<in> set (new_exchanges st (scrape_combo net c st)). \<not> failed x) \<longrightarrow>
           map fst (new_exchanges st (scrape_combo net c st))
             = map (page_request c) [1..fetch_pages T]"
proof -
  from assms(4) have nz: "T \<noteq> 0" by simp
  from assms(4) have "1 \<le> fetch_pages T" by (rule fetch_pages_bounds)
  then have pages: "[1..fetch_pages T] = 1 # [2..fetch_pages T]" by (rule upto_from_1)
  from scrape_combo_trace[where net=net and c=c and st=st, OF assms(1,2,3) nz] obtain new where
    new: "exchanges (scrape_combo net c st) = exchanges st @ (page_request c 1, Inr r) # new"
      "prefix (map fst new) (map (page_request c) [2..fetch_pages T])"
      "(\<forall>x \<in> set new. \<not> failed x) \<longrightarrow> length new = length [2..fetch_pages T]"
    by blast
  have ne: "new_exchanges st (scrape_combo net c st) = (page_request c 1, Inr r) # new"
    using new(1) by (rule new_exchanges_append)
  show "prefix (map fst (new_exchanges st (scrape_combo net c st)))
          (map (page_request c) [1..fetch_pages T])"
    unfolding ne pages using new(2) by simp
  show "(\<forall>x \<in> set (new_exchanges st (scrape_combo net c st)). \<not> failed x) \<longrightarrow>
          map fst (new_exchanges st (scrape_combo net c st))
            = map (page_request c) [1..fetch_pages T]"
  proof
    assume "\<forall>x \<in> set (new_exchanges st (scrape_combo net c st)). \<not> failed x"
    then have "\<forall>x \<in> set new. \<not> failed x" unfolding ne by simp
    with new(3) have "length (map fst new) = length (map (page_request c) [2..fetch_pages T])"
      by simp
    with new(2) have "map fst new = map (page_request c) [2..fetch_pages T]"
      by (rule prefix_same_length)
    then show "map fst (new_exchanges st (scrape_combo net c st))
                 = map (page_request c) [1..fetch_pages T]"
      unfolding ne pages by simp
  qed
qed

text \<open>
  Claim C2. For a total count \<open>T > 0\<close> and the page size 25, the total pages the driver
  computes by \<open>(T + PER_PAGE - 1) // PER_PAGE\<close> are the ceiling of \<open>T / PER_PAGE\<close>, the
  number of pages its loop runs over is the minimum of that ceiling and \<open>MAX_PAGES\<close>, and
  a call of \<open>scrape_combo\<close> never makes more than 4 requests. When the first page
  reports \<open>T\<close>, the requests of the call are the pages \<open>1, 2, ...\<close> in order, never past
  page \<open>fetch_pages T\<close>, and all of the pages \<open>1..fetch_pages T\<close> when no fetch raises (a
  fetch that raises ends the loop early).
\<close>

theorem page_count_ceiling_and_cap:
  assumes "0 < T"
  shows "total_pages T = \<lceil>real_of_int T / real_of_int PER_PAGE\<rceil>
       \<and> fetch_pages T = min \<lceil>real_of_int T / real_of_int PER_PAGE\<rceil> MAX_PAGES
       \<and> length [1..fetch_pages T] = nat (min \<lceil>real_of_int T / real_of_int PER_PAGE\<rceil> 4)
       \<and> length (new_exchanges st (scrape_combo net c st)) \<le> 4
       \<and> (combo_key c \<notin> done_keys st \<and> net (exchanges st) (page_request c 1) = Inr r
            \<and> parse_total_count (resp_soup r) = T
          \<longrightarrow> prefix (map fst (new_exchanges st (scrape_combo net c st)))
                (map (page_request c) [1..fetch_pages T])
              \<and> ((\<forall>x \<in> set (new_exchanges st (scrape_combo net c st)). \<not> failed x) \<longrightarrow>
                   map fst (new_exchanges st (scrape_combo net c st))
                     = map (page_request c) [1..fetch_pages T]))"
proof (intro conjI impI)
  show tp: "total_pages T = \<lceil>real_of_int T / real_of_int PER_PAGE\<rceil>"
    by (rule total_pages_ceiling)
  show fp: "fetch_pages T = min \<lceil>real_of_int T / real_of_int PER_PAGE\<rceil> MAX_PAGES"
    by (simp only: fetch_pages_def tp)
  show "length [1..fetch_pages T] = nat (min \<lceil>real_of_int T / real_of_int PER_PAGE\<rceil> 4)"
    by (simp add: fp MAX_PAGES_def)
  show "length (new_exchanges st (scrape_combo net c st)) \<le> 4"
    by (rule scrape_combo_at_most_cap)
next
  assume h: "combo_key c \<notin> done_keys st \<and> net (exchanges st) (page_request c 1) = Inr r
     \<and> parse_total_count (resp_soup r) = T"
  then have h1: "combo_key c \<notin> done_keys st"
    and h2: "net (exchanges st) (page_request c 1) = Inr r"
    and h3: "parse_total_count (resp_soup r) = T" by simp_all
  show "prefix (map fst (new_exchanges st (scrape_combo net c st)))
          (map (page_request c) [1..fetch_pages T])"
    by (rule scrape_combo_page_requests(1)[where net=net and c=c and st=st, OF h1 h2 h3 assms])
  assume "\<forall>x \<in> set (new_exchanges st (scrape_combo net c st)). \<not> failed x"
  with scrape_combo_page_requests(2)[where net=net and c=c and st=st, OF h1 h2 h3 assms]
  show "map fst (new_exchanges st (scrape_combo net c st))
          = map (page_request c) [1..fetch_pages T]"
    by blast
qed

lemmas run_eval = scrape_combo_def get_results_page_def polite_get_def write_page_def
  fetch_pages_def total_pages_def PER_PAGE_def MAX_PAGES_def Let_def
  net_always_def net_until_def answer_def demo_combo_def fresh_def new_exchanges_def
  new_rows_def combo_key_def page_request_def

lemma upto_1_numeral: "[1..numeral n] = 1 # [2..numeral n]"
  by (rule upto_from_1) simp

lemma run_30:
  "new_exchanges fresh (scrape_combo (net_always (count_soup ''30 Results'')) demo_combo fresh)
     = [(page_request demo_combo 1, answer (count_soup ''30 Results'')),
        (page_request demo_combo 2, answer (count_soup ''30 Results''))]"
  by (simp add: run_eval count_30 no_rows upto_1_numeral)

theorem page_count_ceiling_and_cap_witness:
  "(0::int) < 30
   \<and> total_pages 30 = 2 \<and> fetch_pages 30 = 2
   \<and> length (new_exchanges fresh
        (scrape_combo (net_always (count_soup ''30 Results'')) demo_combo fresh)) \<le> 4
   \<and> map fst (new_exchanges fresh
        (scrape_combo (net_always (count_soup ''30 Results'')) demo_combo fresh))
      = map (page_request demo_combo) [1..fetch_pages 30]"
proof -
  let ?soup = "count_soup ''30 Results''"
  let ?r = "\<lparr>resp_json = None, resp_soup = ?soup\<rparr>"
  have pos: "(0::int) < 30" by simp
  note inst = page_count_ceiling_and_cap[OF pos, where net = "net_always ?soup"
      and c = demo_combo and st = fresh and r = ?r]
  have ceil: "\<lceil>real_of_int 30 / real_of_int PER_PAGE\<rceil> = 2"
    by (rule ceiling_unique) (simp_all add: PER_PAGE_def)
  have key: "combo_key demo_combo \<notin> done_keys fresh"
    by (simp add: fresh_def)
  have page1: "net_always ?soup (exchanges fresh) (page_request demo_combo 1) = Inr ?r"
    by (simp add: net_always_def answer_def)
  have count: "parse_total_count (resp_soup ?r) = 30"
    by (simp add: count_30)
  have ok: "\<forall>x \<in> set (new_exchanges fresh (scrape_combo (net_always ?soup) demo_combo fresh)).
              \<not> failed x"
    by (simp add: run_30 answer_def)
  have tp: "total_pages 30 = 2"
    using inst[THEN conjunct1] ceil by (rule trans)
  have fp: "fetch_pages 30 = 2"
    using inst[THEN conjunct2, THEN conjunct1, unfolded ceil] by (simp add: MAX_PAGES_def)
  have cap: "length (new_exchanges fresh
        (scrape_combo (net_always ?soup) demo_combo fresh)) \<le> 4"
    by (rule inst[THEN conjunct2, THEN conjunct2, THEN conjunct2, THEN conjunct1])
  have reqs: "map fst (new_exchanges fresh
        (scrape_combo (net_always ?soup) demo_combo fresh))
      = map (page_request demo_combo) [1..fetch_pages 30]"
    by (rule inst[THEN conjunct2, THEN conjunct2, THEN conjunct2, THEN conjunct2,
          THEN mp, OF conjI[OF key conjI[OF page1 count]], THEN conjunct2, THEN mp, OF ok])
  show ?thesis
    by (intro conjI pos tp fp cap reqs)
qed

lemmas row_eval = parse_result_rows_def is_row_def row_class_def class_matches_def
  is_mobile_label_def mobile_class_def find_first_def text_or_empty_def get_text_strip_def
  strip_def is_space_def whitespace_def rank_el_def name_el_def nat_el_def age_el_def
  time_el_def Let_def str_eval sublist_code

lemma rows_of_header: "rows_loop [header_row] = []"
  by (simp add: header_row_def row_eval)

lemma rows_of_athlete:
  "rows_loop [athlete_row] =
     [\<lparr>a_rank = ''1'', a_athlete = ''Doe, John'', a_nationality = [],
       a_age_group = ''30-34'', a_total_time = ''0:52:13''\<rparr>]"
  by (simp add: athlete_row_def row_eval)

lemma rows_of_soup:
  "find_all_rows (results_soup txt) = [header_row, athlete_row]"
  by (simp add: results_soup_def header_row_def athlete_row_def row_eval)

lemma page_request_inject: "page_request c p = page_request c q \<Longrightarrow> p = q"
  by (simp add: page_request_def)

lemma only_last_fails:
  assumes "x \<in> set new" and "failed x" and "\<forall>y \<in> set (butlast new). \<not> failed y"
  shows "last new = x"
proof -
  from assms(1) have ne: "new \<noteq> []" by auto
  then have "new = butlast new @ [last new]" by simp
  then have "set new = set (butlast new) \<union> {last new}"
    by (metis list.set(1) list.simps(15) set_append Un_insert_right sup_bot.right_neutral)
  with assms show ?thesis by auto
qed

text \<open>
  Claim C4. When the fetch of a page after the first raises in a call of \<open>scrape_combo\<close>,
  that failed request is the last exchange of the call (pagination stops), the file holds
  its old rows followed by the rows of every page fetched before (nothing is taken back),
  and the key is in the done-set after the call.
\<close>

theorem later_page_error_keeps_rows_and_marks_done:
  assumes "x \<in> set (new_exchanges st (scrape_combo net c st))"
    and "failed x" and "fst x = page_request c p" and "1 < p"
  shows "last (new_exchanges st (scrape_combo net c st)) = x
       \<and> store (scrape_combo net c st)
           = store st @ concat (map (page_rows c) (new_exchanges st (scrape_combo net c st)))
       \<and> combo_key c \<in> done_keys (scrape_combo net c st)"
proof (cases rule: scrape_combo_cases[of c st net])
  case skip
  with assms(1) show ?thesis by (simp add: new_exchanges_def)
next
  case (error e)
  then have "new_exchanges st (scrape_combo net c st) = [(page_request c 1, Inl e)]"
    by (simp add: new_exchanges_def)
  with assms(1,3) have "page_request c 1 = page_request c p" by simp
  then have "1 = p" by (rule page_request_inject)
  with assms(4) show ?thesis by simp
next
  case (empty r)
  then have "new_exchanges st (scrape_combo net c st) = [(page_request c 1, Inr r)]"
    by (simp add: new_exchanges_def)
  with assms(1,2) show ?thesis by simp
next
  case (pages r)
  from scrape_combo_trace[where net=net and c=c and st=st, OF pages(1,2) refl pages(3)]
  obtain new where
    new: "exchanges (scrape_combo net c st) = exchanges st @ (page_request c 1, Inr r) # new"
      "\<forall>y \<in> set (butlast new). \<not> failed y"
      "store (scrape_combo net c st)
         = store st @ concat (map (page_rows c) ((page_request c 1, Inr r) # new))"
      "done_keys (scrape_combo net c st) = insert (combo_key c) (done_keys st)"
    by blast
  have ne: "new_exchanges st (scrape_combo net c st) = (page_request c 1, Inr r) # new"
    using new(1) by (rule new_exchanges_append)
  from assms(1,2) have "x \<in> set new" unfolding ne by auto
  then have "last new = x" using assms(2) new(2) by (rule only_last_fails)
  moreover from \<open>x \<in> set new\<close> have "new \<noteq> []" by auto
  ultimately have "last (new_exchanges st (scrape_combo net c st)) = x"
    unfolding ne by simp
  moreover have "store (scrape_combo net c st)
      = store st @ concat (map (page_rows c) (new_exchanges st (scrape_combo net c st)))"
    unfolding ne by (rule new(3))
  moreover have "combo_key c \<in> done_keys (scrape_combo net c st)"
    by (simp add: new(4))
  ultimately show ?thesis by blast
qed

lemma count_results_soup: "parse_total_count (results_soup ''1,875 Results'') = 1875"
  by (simp add: soup_eval results_soup_def header_row_def athlete_row_def)

lemma rows_results_soup:
  "parse_result_rows (results_soup txt) =
     [\<lparr>a_rank = ''1'', a_athlete = ''Doe, John'', a_nationality = [],
       a_age_group = ''30-34'', a_total_time = ''0:52:13''\<rparr>]"
  by (simp add: results_soup_def header_row_def athlete_row_def row_eval)

lemma fresh_fields: "done_keys fresh = {}" "store fresh = []" "exchanges fresh = []"
  by (simp_all add: fresh_def)

lemma run_fail_3:
  "scrape_combo (net_until 3 (results_soup ''1,875 Results'')) demo_combo fresh
     = \<lparr>done_keys = {(''H_OVERALL'', ''M'')}, store = [demo_row, demo_row],
        exchanges = [(page_request demo_combo 1, answer (results_soup ''1,875 Results'')),
                     (page_request demo_combo 2, answer (results_soup ''1,875 Results'')),
                     (page_request demo_combo 3, Inl RequestError)]\<rparr>"
  by (simp add: run_eval count_results_soup rows_results_soup upto_1_numeral writerow_def
      demo_row_def)

theorem later_page_error_keeps_rows_and_marks_done_witness:
  "(page_request demo_combo 3, Inl RequestError)
     \<in> set (new_exchanges fresh
         (scrape_combo (net_until 3 (results_soup ''1,875 Results'')) demo_combo fresh))
   \<and> last (new_exchanges fresh
         (scrape_combo (net_until 3 (results_soup ''1,875 Results'')) demo_combo fresh))
       = (page_request demo_combo 3, Inl RequestError)
   \<and> store (scrape_combo (net_until 3 (results_soup ''1,875 Results'')) demo_combo fresh)
       = [demo_row, demo_row]
   \<and> combo_key demo_combo
       \<in> done_keys (scrape_combo (net_until 3 (results_soup ''1,875 Results'')) demo_combo fresh)"
proof -
  let ?net = "net_until 3 (results_soup ''1,875 Results'')"
  let ?x = "(page_request demo_combo 3, Inl RequestError) :: exchange"
  have mem: "?x \<in> set (new_exchanges fresh (scrape_combo ?net demo_combo fresh))"
    by (simp add: run_fail_3 new_exchanges_def fresh_fields)
  have f: "failed ?x" by simp
  have req: "fst ?x = page_request demo_combo 3" by simp
  have p: "(1::int) < 3" by simp
  note inst = later_page_error_keeps_rows_and_marks_done[OF mem f req p]
  have st: "store (scrape_combo ?net demo_combo fresh) = [demo_row, demo_row]"
    by (simp add: run_fail_3)
  show ?thesis
    by (intro conjI mem inst[THEN conjunct1] st inst[THEN conjunct2, THEN conjunct2])
qed

section \<open>A run never fetches or writes a key that is done\<close>

lemma extends_refl: "extends st st"
  by (simp add: extends_def)

lemma extends_trans:
  assumes "extends st1 st2" and "extends st2 st3"
  shows "extends st1 st3"
proof -
  from assms(1) obtain new1 rows1 where
    a: "done_keys st1 \<subseteq> done_keys st2"
      "exchanges st2 = exchanges st1 @ new1"
      "\<forall>x \<in> set new1. \<forall>k. request_key (fst x) = Some k \<longrightarrow> k \<notin> done_keys st1"
      "store st2 = store st1 @ rows1" "\<forall>r \<in> set rows1. row_key r \<notin> done_keys st1"
      "load_done_keys (store st1) \<subseteq> done_keys st1
         \<longrightarrow> load_done_keys (store st2) \<subseteq> done_keys st2"
    unfolding extends_def by blast
  from assms(2) obtain new2 rows2 where
    b: "done_keys st2 \<subseteq> done_keys st3"
      "exchanges st3 = exchanges st2 @ new2"
      "\<forall>x \<in> set new2. \<forall>k. request_key (fst x) = Some k \<longrightarrow> k \<notin> done_keys st2"
      "store st3 = store st2 @ rows2" "\<forall>r \<in> set rows2. row_key r \<notin> done_keys st2"
      "load_done_keys (store st2) \<subseteq> done_keys st2
         \<longrightarrow> load_done_keys (store st3) \<subseteq> done_keys st3"
    unfolding extends_def by blast
  have 1: "done_keys st1 \<subseteq> done_keys st3" using a(1) b(1) by blast
  have 2: "exchanges st3 = exchanges st1 @ (new1 @ new2)" using a(2) b(2) by simp
  have 3: "\<forall>x \<in> set (new1 @ new2). \<forall>k. request_key (fst x) = Some k \<longrightarrow> k \<notin> done_keys st1"
    using a(1,3) b(3) by auto
  have 4: "store st3 = store st1 @ (rows1 @ rows2)" using a(4) b(4) by simp
  have 5: "\<forall>r \<in> set (rows1 @ rows2). row_key r \<notin> done_keys st1"
    using a(1,5) b(5) by auto
  have 6: "load_done_keys (store st1) \<subseteq> done_keys st1
         \<longrightarrow> load_done_keys (store st3) \<subseteq> done_keys st3"
    using a(6) b(6) by blast
  show ?thesis
    unfolding extends_def using 1 2 3 4 5 6 by blast
qed

lemma extends_search:
  "extends st (snd (polite_get net (SearchFields base_url emg) st))"
  by (simp add: extends_def polite_get_def Let_def)

lemma request_key_page: "request_key (page_request c p) = Some (combo_key c)"
  by (simp add: page_request_def combo_key_def)

lemma row_key_writerow: "row_key (writerow c a) = combo_key c"
  by (simp add: row_key_def writerow_def combo_key_def)

lemma row_key_page_rows: "r \<in> set (page_rows c x) \<Longrightarrow> row_key r = combo_key c"
proof -
  obtain req out where x: "x = (req, out)" by (cases x)
  assume "r \<in> set (page_rows c x)"
  then show ?thesis
    unfolding x by (cases out) (auto simp: row_key_writerow)
qed

lemma load_done_keys_append:
  "load_done_keys (rows1 @ rows2) = load_done_keys rows1 \<union> row_key ` set rows2"
  by (auto simp: load_done_keys_def row_key_def)

lemma extends_one_request:
  assumes "combo_key c \<notin> done_keys st"
  shows "extends st (st\<lparr>exchanges := exchanges st @ [(page_request c 1, out)]\<rparr>)"
  using assms by (auto simp: extends_def request_key_page)

lemma extends_scrape_combo: "extends st (scrape_combo net c st)"
proof (cases rule: scrape_combo_cases[of c st net])
  case skip
  then show ?thesis by (simp add: extends_refl)
next
  case (error e)
  then show ?thesis by (simp add: extends_one_request)
next
  case (empty r)
  then show ?thesis by (simp add: extends_one_request)
next
  case (pages r)
  let ?T = "parse_total_count (resp_soup r)"
  let ?st' = "scrape_combo net c st"
  from scrape_combo_trace[where net=net and c=c and st=st, OF pages(1,2) refl pages(3)]
  obtain new where
    new: "exchanges ?st' = exchanges st @ (page_request c 1, Inr r) # new"
      "prefix (map fst new) (map (page_request c) [2..fetch_pages ?T])"
      "store ?st' = store st @ concat (map (page_rows c) ((page_request c 1, Inr r) # new))"
      "done_keys ?st' = insert (combo_key c) (done_keys st)"
    by blast
  let ?rows = "concat (map (page_rows c) ((page_request c 1, Inr r) # new))"
  have reqs: "\<forall>x \<in> set ((page_request c 1, Inr r) # new).
                 request_key (fst x) = Some (combo_key c)"
  proof
    fix x assume "x \<in> set ((page_request c 1, Inr r) # new)"
    then consider "x = (page_request c 1, Inr r)" | "x \<in> set new" by auto
    then show "request_key (fst x) = Some (combo_key c)"
    proof cases
      case 1
      then show ?thesis by (simp add: request_key_page)
    next
      case 2
      then have "fst x \<in> set (map fst new)" by simp
      with new(2) have "fst x \<in> set (map (page_request c) [2..fetch_pages ?T])"
        using set_mono_prefix by blast
      then show ?thesis by (auto simp: request_key_page)
    qed
  qed
  have rows: "\<forall>r \<in> set ?rows. row_key r = combo_key c"
    by (auto dest: row_key_page_rows simp del: page_rows.simps)
  have 1: "done_keys st \<subseteq> done_keys ?st'" by (auto simp: new(4))
  have 3: "\<forall>x \<in> set ((page_request c 1, Inr r) # new).
             \<forall>k. request_key (fst x) = Some k \<longrightarrow> k \<notin> done_keys st"
    using reqs pages(1) by auto
  have 5: "\<forall>r \<in> set ?rows. row_key r \<notin> done_keys st"
    using rows pages(1) by auto
  have 6: "load_done_keys (store st) \<subseteq> done_keys st
         \<longrightarrow> load_done_keys (store ?st') \<subseteq> done_keys ?st'"
    unfolding new(3) new(4) load_done_keys_append using rows by auto
  show ?thesis
    unfolding extends_def using 1 new(1) 3 new(3) 5 6 by blast
qed

lemma extends_event_codes:
  "get_event_codes net base_url emg st = (res, st1) \<Longrightarrow> extends st st1"
  using extends_search[of st net base_url "Some emg"]
  by (auto simp: get_event_codes_def split: prod.splits sum.splits)

lemma extends_event_groups:
  "get_event_groups net base_url st = (res, st1) \<Longrightarrow> extends st st1"
  using extends_search[of st net base_url None]
  by (auto simp: get_event_groups_def split: prod.splits sum.splits)

lemma genders_loop_extends:
  "extends st0 st \<Longrightarrow> extends st0 (genders_loop net c gs st)"
proof (induction gs arbitrary: st)
  case Nil
  then show ?case by simp
next
  case (Cons g gs)
  obtain sex_code sex_label where g: "g = (sex_code, sex_label)" by (cases g)
  have "extends st0 (scrape_combo net (c\<lparr>c_gender := sex_code\<rparr>) st)"
    using Cons.prems extends_scrape_combo by (rule extends_trans)
  then have "extends st0 (genders_loop net c gs (scrape_combo net (c\<lparr>c_gender := sex_code\<rparr>) st))"
    by (rule Cons.IH)
  then show ?case by (simp add: g)
qed

lemma events_loop_extends:
  "extends st0 st \<Longrightarrow> extends st0 (snd (events_loop net season base_url emg evs st))"
proof (induction evs arbitrary: st)
  case Nil
  then show ?case by simp
next
  case (Cons ev evs)
  show ?case
  proof (cases "opt_value ev")
    case (JStr ev_code)
    let ?c = "\<lparr>c_base_url = base_url, c_season = season, c_event_main_group = emg,
                c_event_code = ev_code, c_event_label = opt_text ev,
                c_category = category_from_code ev_code, c_gender = []\<rparr>"
    from Cons.prems have "extends st0 (genders_loop net ?c GENDERS st)"
      by (rule genders_loop_extends)
    then have "extends st0 (snd (events_loop net season base_url emg evs
                 (genders_loop net ?c GENDERS st)))"
      by (rule Cons.IH)
    then show ?thesis by (simp add: JStr)
  qed (use Cons.prems in simp_all)
qed

lemma groups_loop_extends:
  "extends st0 st \<Longrightarrow> extends st0 (snd (groups_loop net season base_url egs st))"
proof (induction egs arbitrary: st)
  case Nil
  then show ?case by simp
next
  case (Cons eg rest)
  obtain res st1 where codes: "get_event_codes net base_url (opt_value eg) st = (res, st1)"
    by (cases "get_event_codes net base_url (opt_value eg) st")
  from codes have "extends st st1" by (rule extends_event_codes)
  with Cons.prems have e1: "extends st0 st1" by (rule extends_trans)
  note ih1 = Cons.IH[OF e1]
  show ?case
  proof (cases res)
    case (Inl e)
    with codes ih1 show ?thesis by simp
  next
    case (Inr event_opts)
    show ?thesis
    proof (cases "event_opts = []")
      case True
      with codes Inr ih1 show ?thesis by simp
    next
      case nonempty: False
      show ?thesis
      proof (cases "open_filter event_opts")
        case (Inl e)
        with codes Inr nonempty e1 show ?thesis by (simp add: ONLY_OPEN_def)
      next
        case open_opts: (Inr open_opts)
        show ?thesis
        proof (cases "open_opts = []")
          case True
          with codes Inr nonempty open_opts ih1 show ?thesis by (simp add: ONLY_OPEN_def)
        next
          case some_open: False
          show ?thesis
          proof (cases "use_opts open_opts")
            case (Inl e)
            with codes Inr nonempty open_opts some_open e1 show ?thesis
              by (simp add: ONLY_OPEN_def)
          next
            case opts: (Inr opts)
            obtain res2 st2 where
              ev: "events_loop net season base_url (opt_value eg) opts st1 = (res2, st2)"
              by (cases "events_loop net season base_url (opt_value eg) opts st1")
            from events_loop_extends[OF e1, of net season base_url "opt_value eg" opts]
            have e2: "extends st0 st2" by (simp add: ev)
            show ?thesis
            proof (cases res2)
              case None
              with codes Inr nonempty open_opts some_open opts ev Cons.IH[OF e2]
              show ?thesis by (simp add: ONLY_OPEN_def)
            next
              case (Some e)
              with codes Inr nonempty open_opts some_open opts ev e2
              show ?thesis by (simp add: ONLY_OPEN_def)
            qed
          qed
        qed
      qed
    qed
  qed
qed

lemma seasons_loop_extends:
  "extends st0 st \<Longrightarrow> extends st0 (snd (seasons_loop net seasons st))"
proof (induction seasons arbitrary: st)
  case Nil
  then show ?case by simp
next
  case (Cons s rest)
  obtain season base_url where s: "s = (season, base_url)" by (cases s)
  obtain res st1 where groups: "get_event_groups net base_url st = (res, st1)"
    by (cases "get_event_groups net base_url st")
  from groups have "extends st st1" by (rule extends_event_groups)
  with Cons.prems have e1: "extends st0 st1" by (rule extends_trans)
  show ?case
  proof (cases res)
    case (Inl e)
    with s groups Cons.IH[OF e1] show ?thesis by simp
  next
    case (Inr event_groups)
    show ?thesis
    proof (cases "event_groups = []")
      case True
      with s groups Inr Cons.IH[OF e1] show ?thesis by simp
    next
      case False
      obtain res2 st2 where
        gl: "groups_loop net season base_url event_groups st1 = (res2, st2)"
        by (cases "groups_loop net season base_url event_groups st1")
      from groups_loop_extends[OF e1, of net season base_url event_groups]
      have e2: "extends st0 st2" by (simp add: gl)
      show ?thesis
      proof (cases res2)
        case None
        with s groups Inr False gl Cons.IH[OF e2] show ?thesis by simp
      next
        case (Some e)
        with s groups Inr False gl e2 show ?thesis by simp
      qed
    qed
  qed
qed

lemma main_extends:
  "extends \<lparr>done_keys = load_done_keys file_rows, store = file_rows, exchanges = []\<rparr>
     (snd (main net file_rows))"
  unfolding main_def by (rule seasons_loop_extends) (rule extends_refl)

lemma extends_exchanges:
  "extends st st' \<Longrightarrow> \<exists>new. exchanges st' = exchanges st @ new
     \<and> (\<forall>x \<in> set new. \<forall>k. request_key (fst x) = Some k \<longrightarrow> k \<notin> done_keys st)"
  by (simp add: extends_def)

lemma extends_store:
  "extends st st' \<Longrightarrow> \<exists>rows. store st' = store st @ rows
     \<and> (\<forall>r \<in> set rows. row_key r \<notin> done_keys st)"
  by (simp add: extends_def)

lemma extends_done_keys: "extends st st' \<Longrightarrow> done_keys st \<subseteq> done_keys st'"
  by (simp add: extends_def)

lemma extends_stored_keys:
  "extends st st' \<Longrightarrow> load_done_keys (store st) \<subseteq> done_keys st
     \<Longrightarrow> load_done_keys (store st') \<subseteq> done_keys st'"
  by (simp add: extends_def)

text \<open>
  Claim C1. Let the key \<open>k\<close> be the (event code, gender) of a row the output file holds
  when \<open>main\<close> starts. Then no exchange of the run is a results-page request for \<open>k\<close>, the
  file after the run is the file before it followed by rows none of which is for \<open>k\<close>, and
  a call of \<open>scrape_combo\<close> for \<open>k\<close> in any state whose done-set contains the keys loaded
  by \<open>load_done_keys\<close> returns the state as it is: no fetch, no row.
\<close>

theorem rerun_skips_stored_keys:
  assumes "k \<in> load_done_keys file_rows"
  shows "(\<forall>x \<in> set (exchanges (snd (main net file_rows))). request_key (fst x) \<noteq> Some k)
       \<and> (\<exists>rows. store (snd (main net file_rows)) = file_rows @ rows
                \<and> (\<forall>r \<in> set rows. row_key r \<noteq> k))
       \<and> (\<forall>c st. combo_key c = k \<and> load_done_keys file_rows \<subseteq> done_keys st
                \<longrightarrow> scrape_combo net c st = st)"
proof -
  define st0 where
    "st0 = \<lparr>done_keys = load_done_keys file_rows, store = file_rows, exchanges = []\<rparr>"
  define st where "st = snd (main net file_rows)"
  have st0: "done_keys st0 = load_done_keys file_rows" "store st0 = file_rows"
    "exchanges st0 = []"
    by (simp_all add: st0_def)
  have ext: "extends st0 st"
    unfolding st0_def st_def by (rule main_extends)
  from extends_exchanges[OF ext] obtain new where
    new: "exchanges st = new"
      "\<forall>x \<in> set new. \<forall>k. request_key (fst x) = Some k \<longrightarrow> k \<notin> load_done_keys file_rows"
    unfolding st0 by auto
  from extends_store[OF ext] obtain rows where
    rows: "store st = file_rows @ rows" "\<forall>r \<in> set rows. row_key r \<notin> load_done_keys file_rows"
    unfolding st0 by auto
  have a: "\<forall>x \<in> set (exchanges st). request_key (fst x) \<noteq> Some k"
  proof (intro ballI notI)
    fix x assume "x \<in> set (exchanges st)" and eq: "request_key (fst x) = Some k"
    then have "x \<in> set new" by (simp add: new(1))
    from new(2)[rule_format, OF this eq] assms show False by simp
  qed
  have "\<forall>r \<in> set rows. row_key r \<noteq> k"
  proof (intro ballI notI)
    fix r assume "r \<in> set rows" and eq: "row_key r = k"
    from rows(2)[rule_format, OF this(1)] eq assms show False by simp
  qed
  with rows(1)
  have b: "\<exists>rows. store st = file_rows @ rows \<and> (\<forall>r \<in> set rows. row_key r \<noteq> k)"
    by (intro exI conjI)
  have c: "\<forall>c st. combo_key c = k \<and> load_done_keys file_rows \<subseteq> done_keys st
             \<longrightarrow> scrape_combo net c st = st"
  proof (intro allI impI)
    fix c and s :: run_state
    assume "combo_key c = k \<and> load_done_keys file_rows \<subseteq> done_keys s"
    with assms have "combo_key c \<in> done_keys s" by auto
    then show "scrape_combo net c s = s" by (rule scrape_combo_skip)
  qed
  from a b c show ?thesis
    unfolding st_def by (intro conjI)
qed

lemma demo_groups: "event_groups_of (Some groups_json) = Inr [demo_group]"
  by (simp add: event_groups_of_def groups_json_def demo_group_def)

lemma demo_codes: "event_codes_of (Some codes_json) = Inr [opt_overall, opt_pro, opt_saturday]"
  by (simp add: event_codes_of_def event_list_def codes_json_def opt_overall_def opt_pro_def
      opt_saturday_def)

lemma demo_categories:
  "category_from_code ''H_OVERALL'' = ''HYROX''"
  "category_from_code ''HPRO_OVERALL'' = ''HYROX PRO''"
  "category_from_code ''H_SAT'' = ''HYROX''"
  by (simp_all add: category_from_code_def CATEGORY_PREFIXES_def str_eval)

lemma demo_open: "open_filter [opt_overall, opt_pro, opt_saturday] = Inr [opt_overall, opt_saturday]"
  by (simp add: demo_categories opt_overall_def opt_pro_def opt_saturday_def)

lemma demo_use: "use_opts [opt_overall, opt_saturday] = Inr [opt_overall]"
  by (simp add: use_opts_def opt_overall_def opt_saturday_def str_eval sublist_code)

lemma demo_events:
  "events_loop net ''Season 8'' ''https://results.hyrox.com/season-8/'' (JStr ''2025 Wien'')
     [opt_overall] st = (None, scrape_combo net demo_combo st)"
  by (simp add: opt_overall_def demo_categories GENDERS_def demo_combo_def)

lemma demo_main:
  "main demo_site file_rows =
     (None, scrape_combo demo_site demo_combo
        \<lparr>done_keys = load_done_keys file_rows, store = file_rows,
         exchanges =
           map (\<lambda>s. (SearchFields (snd s) None, Inl RequestError)) (butlast SEASON_BASES)
           @ [(SearchFields ''https://results.hyrox.com/season-8/'' None,
                Inr \<lparr>resp_json = Some groups_json, resp_soup = Text []\<rparr>),
              (SearchFields ''https://results.hyrox.com/season-8/'' (Some (JStr ''2025 Wien'')),
                Inr \<lparr>resp_json = Some codes_json, resp_soup = Text []\<rparr>)]\<rparr>)"
  by (simp add: main_def SEASON_BASES_def get_event_groups_def get_event_codes_def
      polite_get_def demo_site_def demo_groups demo_codes demo_open demo_use demo_events
      ONLY_OPEN_def Let_def demo_group_def
      del: events_loop.simps open_filter.simps)

lemma rerun_store: "store (snd (main demo_site [demo_row])) = [demo_row]"
proof -
  have "combo_key demo_combo \<in> load_done_keys [demo_row]"
    by (simp add: combo_key_def demo_combo_def load_done_keys_def demo_row_def)
  then show ?thesis
    by (simp add: demo_main scrape_combo_skip)
qed

lemma not_in_image: "\<forall>x \<in> S. f x \<noteq> y \<Longrightarrow> y \<notin> f ` S"
  by auto

theorem rerun_skips_stored_keys_witness:
  "(''H_OVERALL'', ''M'') \<in> load_done_keys [demo_row]
   \<and> Some (''H_OVERALL'', ''M'')
        \<notin> (\<lambda>x. request_key (fst x)) ` set (exchanges (snd (main demo_site [demo_row])))
   \<and> store (snd (main demo_site [demo_row])) = [demo_row]
   \<and> scrape_combo demo_site demo_combo
        \<lparr>done_keys = load_done_keys [demo_row], store = [demo_row], exchanges = []\<rparr>
       = \<lparr>done_keys = load_done_keys [demo_row], store = [demo_row], exchanges = []\<rparr>"
proof -
  have stored: "(''H_OVERALL'', ''M'') \<in> load_done_keys [demo_row]"
    by (simp add: load_done_keys_def demo_row_def)
  note inst = rerun_skips_stored_keys[OF stored, of demo_site]
  have key: "combo_key demo_combo = (''H_OVERALL'', ''M'')"
    by (simp add: combo_key_def demo_combo_def)
  have requests: "Some (''H_OVERALL'', ''M'')
      \<notin> (\<lambda>x. request_key (fst x)) ` set (exchanges (snd (main demo_site [demo_row])))"
    using inst[THEN conjunct1] by (rule not_in_image)
  have skip: "scrape_combo demo_site demo_combo
        \<lparr>done_keys = load_done_keys [demo_row], store = [demo_row], exchanges = []\<rparr>
       = \<lparr>done_keys = load_done_keys [demo_row], store = [demo_row], exchanges = []\<rparr>"
    by (rule inst[THEN conjunct2, THEN conjunct2, rule_format]) (simp add: key)
  show ?thesis
    by (intro conjI stored requests rerun_store skip)
qed

text \<open>The same site from an empty file: the key is fetched, two pages, and marked done.\<close>

lemma count_results_30: "parse_total_count (results_soup ''30 Results'') = 30"
  by (simp add: soup_eval results_soup_def header_row_def athlete_row_def)

lemma demo_scrape:
  assumes "combo_key demo_combo \<notin> done_keys st"
  shows "scrape_combo demo_site demo_combo st =
           st\<lparr>exchanges := exchanges st @
                 [(page_request demo_combo 1, answer (results_soup ''30 Results'')),
                  (page_request demo_combo 2, answer (results_soup ''30 Results''))],
              store := store st @ [demo_row, demo_row],
              done_keys := insert (combo_key demo_combo) (done_keys st)\<rparr>"
proof -
  have key: "(''H_OVERALL'', ''M'') \<notin> done_keys st"
    using assms by (simp add: combo_key_def demo_combo_def)
  show ?thesis
    by (simp add: scrape_combo_def get_results_page_def polite_get_def write_page_def
        fetch_pages_def total_pages_def PER_PAGE_def MAX_PAGES_def Let_def demo_site_def
        answer_def demo_combo_def combo_key_def page_request_def key
        rows_results_soup count_results_30 upto_1_numeral writerow_def demo_row_def)
qed

lemma first_run_collects:
  "store (snd (main demo_site [])) = [demo_row, demo_row]
   \<and> done_keys (snd (main demo_site [])) = {combo_key demo_combo}
   \<and> filter (\<lambda>q. request_key q \<noteq> None) (map fst (exchanges (snd (main demo_site []))))
       = [page_request demo_combo 1, page_request demo_combo 2]"
  by (simp add: demo_main demo_scrape load_done_keys_def request_key_page SEASON_BASES_def)





lemma marked_done_only_after_first_page:
  assumes "k \<in> done_keys (scrape_combo net c st)" and "k \<notin> done_keys st"
  shows "k = combo_key c
       \<and> (\<exists>r. net (exchanges st) (page_request c 1) = Inr r
               \<and> parse_total_count (resp_soup r) \<noteq> 0)"
proof (cases rule: scrape_combo_cases[of c st net])
  case skip
  with assms show ?thesis by simp
next
  case (error e)
  with assms show ?thesis by simp
next
  case (empty r)
  with assms show ?thesis by simp
next
  case (pages r)
  from scrape_combo_trace[where net=net and c=c and st=st, OF pages(1,2) refl pages(3)]
  have "done_keys (scrape_combo net c st) = insert (combo_key c) (done_keys st)"
    by blast
  with assms pages(2,3) show ?thesis by auto
qed

section \<open>Event discovery tolerates both response shapes\<close>

lemma getitem_errors: "getitem d k = Inl e \<Longrightarrow> e = KeyError \<or> e = TypeError"
  by (cases d) (auto split: option.splits)

lemma getpath_errors: "getpath d ks = Inl e \<Longrightarrow> e = KeyError \<or> e = TypeError"
proof (induction ks arbitrary: d)
  case Nil
  then show ?case by simp
next
  case (Cons k ks)
  show ?case
  proof (cases "getitem d k")
    case (Inl e')
    with Cons.prems have "e' = e" by simp
    with Inl show ?thesis by (auto dest: getitem_errors)
  next
    case (Inr v)
    with Cons.prems have "getpath v ks = Inl e" by simp
    then show ?thesis by (rule Cons.IH)
  qed
qed

lemma get_event_codes_result:
  "fst (get_event_codes net base_url emg st) =
     (case net (exchanges st) (SearchFields base_url (Some emg)) of
        Inl e \<Rightarrow> Inl e
      | Inr r \<Rightarrow> event_codes_of (resp_json r))"
  by (simp add: get_event_codes_def polite_get_def Let_def split: sum.splits)

text \<open>
  Claim C7. When the request of \<open>get_event_codes\<close> is answered: a body that is not JSON
  gives the empty list; a decoded body in which the path
  \<open>branches.lists.fields.event.data\<close> can be followed gives the events read from the value
  there; when that path cannot be followed and the path \<open>event.data\<close> can, the events are
  read from the value there; and when neither path can be followed the result is the empty
  list. In none of the last three cases does following a path raise past the function
  (\<open>getpath_errors\<close>: it raises \<open>KeyError\<close> or \<open>TypeError\<close> only, which both handlers
  catch).
\<close>

theorem get_event_codes_tries_nested_then_top_level:
  assumes "net (exchanges st) (SearchFields base_url (Some emg)) = Inr r"
  shows "(resp_json r = None \<longrightarrow> fst (get_event_codes net base_url emg st) = Inr [])
       \<and> (\<forall>data ev. resp_json r = Some data \<and> getpath data nested_path = Inr ev
            \<longrightarrow> fst (get_event_codes net base_url emg st) = event_list ev)
       \<and> (\<forall>data e ev. resp_json r = Some data \<and> getpath data nested_path = Inl e
              \<and> getpath data top_path = Inr ev
            \<longrightarrow> fst (get_event_codes net base_url emg st) = event_list ev)
       \<and> (\<forall>data e e'. resp_json r = Some data \<and> getpath data nested_path = Inl e
              \<and> getpath data top_path = Inl e'
            \<longrightarrow> fst (get_event_codes net base_url emg st) = Inr [])"
proof -
  have res: "fst (get_event_codes net base_url emg st) = event_codes_of (resp_json r)"
    by (simp add: get_event_codes_result assms)
  have paths: "nested_path = [''branches'', ''lists'', ''fields'', ''event'', ''data'']"
    "top_path = [''event'', ''data'']"
    by (simp_all only: nested_path_def top_path_def)
  have a: "resp_json r = None \<longrightarrow> event_codes_of (resp_json r) = Inr []"
    by (simp add: event_codes_of_def)
  have b: "\<forall>data ev. resp_json r = Some data \<and> getpath data nested_path = Inr ev
            \<longrightarrow> event_codes_of (resp_json r) = event_list ev"
    unfolding paths by (simp add: event_codes_of_def del: getpath.simps)
  have c: "\<forall>data e ev. resp_json r = Some data \<and> getpath data nested_path = Inl e
              \<and> getpath data top_path = Inr ev
            \<longrightarrow> event_codes_of (resp_json r) = event_list ev"
    unfolding paths by (simp add: event_codes_of_def del: getpath.simps)
  have d: "\<forall>data e e'. resp_json r = Some data \<and> getpath data nested_path = Inl e
              \<and> getpath data top_path = Inl e'
            \<longrightarrow> event_codes_of (resp_json r) = Inr []"
    unfolding paths by (simp add: event_codes_of_def del: getpath.simps)
  from a b c d show ?thesis
    unfolding res by (intro conjI)
qed

lemma nested_demo:
  "getpath codes_json nested_path
     = Inr (JArr [JObj [(''v'', JArr [JStr ''H_OVERALL'', JStr ''HYROX - Overall''])],
                  JObj [(''v'', JArr [JStr ''HPRO_OVERALL'', JStr ''HYROX PRO - Overall''])],
                  JObj [(''v'', JArr [JStr ''H_SAT'', JStr ''HYROX - Saturday''])]])"
  by (simp add: codes_json_def nested_path_def)

lemma top_level_demo:
  "getpath top_level_json nested_path = Inl KeyError"
  "getpath top_level_json top_path
     = Inr (JArr [JObj [(''v'', JArr [JStr ''H_SAT'', JStr ''HYROX - Saturday''])],
                  JObj [(''v'', JArr [JStr ''only one''])],
                  JObj [(''x'', JNull)]])"
  by (simp_all add: top_level_json_def nested_path_def top_path_def)

lemma other_demo:
  "getpath other_json nested_path = Inl TypeError"
  "getpath other_json top_path = Inl TypeError"
  by (simp_all add: other_json_def nested_path_def top_path_def)

lemma event_list_demo:
  "event_list (JArr [JObj [(''v'', JArr [JStr ''H_OVERALL'', JStr ''HYROX - Overall''])],
                     JObj [(''v'', JArr [JStr ''HPRO_OVERALL'', JStr ''HYROX PRO - Overall''])],
                     JObj [(''v'', JArr [JStr ''H_SAT'', JStr ''HYROX - Saturday''])]])
     = Inr [opt_overall, opt_pro, opt_saturday]"
  "event_list (JArr [JObj [(''v'', JArr [JStr ''H_SAT'', JStr ''HYROX - Saturday''])],
                     JObj [(''v'', JArr [JStr ''only one''])],
                     JObj [(''x'', JNull)]])
     = Inr [opt_saturday]"
  by (simp_all add: event_list_def opt_overall_def opt_pro_def opt_saturday_def)

theorem get_event_codes_tries_nested_then_top_level_witness:
  "fst (get_event_codes (net_json (Some codes_json)) ''https://results.hyrox.com/season-8/''
          (JStr ''2025 Wien'') fresh) = Inr [opt_overall, opt_pro, opt_saturday]
   \<and> fst (get_event_codes (net_json (Some top_level_json)) ''https://results.hyrox.com/season-8/''
          (JStr ''2025 Wien'') fresh) = Inr [opt_saturday]
   \<and> fst (get_event_codes (net_json (Some other_json)) ''https://results.hyrox.com/season-8/''
          (JStr ''2025 Wien'') fresh) = Inr []
   \<and> fst (get_event_codes (net_json None) ''https://results.hyrox.com/season-8/''
          (JStr ''2025 Wien'') fresh) = Inr []"
proof -
  let ?b = "''https://results.hyrox.com/season-8/''"
  let ?g = "JStr ''2025 Wien''"
  have answers: "net_json body (exchanges fresh) (SearchFields ?b (Some ?g))
      = Inr \<lparr>resp_json = body, resp_soup = Text []\<rparr>" for body
    by (simp add: net_json_def)
  have body: "resp_json \<lparr>resp_json = b, resp_soup = Text []\<rparr> = b" for b
    by simp
  have a: "fst (get_event_codes (net_json (Some codes_json)) ?b ?g fresh)
      = Inr [opt_overall, opt_pro, opt_saturday]"
    using get_event_codes_tries_nested_then_top_level[where net = "net_json (Some codes_json)"
        and st = fresh, OF answers, THEN conjunct2, THEN conjunct1, rule_format,
        OF conjI[OF body nested_demo]]
    by (simp only: event_list_demo)
  have b: "fst (get_event_codes (net_json (Some top_level_json)) ?b ?g fresh)
      = Inr [opt_saturday]"
    using get_event_codes_tries_nested_then_top_level[where net = "net_json (Some top_level_json)"
        and st = fresh, OF answers, THEN conjunct2, THEN conjunct2, THEN conjunct1,
        rule_format, OF conjI[OF body conjI[OF top_level_demo]]]
    by (simp only: event_list_demo)
  have c: "fst (get_event_codes (net_json (Some other_json)) ?b ?g fresh) = Inr []"
    by (rule get_event_codes_tries_nested_then_top_level[where net = "net_json (Some other_json)"
        and st = fresh, OF answers, THEN conjunct2, THEN conjunct2, THEN conjunct2,
          rule_format, OF conjI[OF body conjI[OF other_demo]]])
  have d: "fst (get_event_codes (net_json None) ?b ?g fresh) = Inr []"
    by (rule get_event_codes_tries_nested_then_top_level[where net = "net_json None"
        and st = fresh, OF answers, THEN conjunct1, rule_format, OF body])
  show ?thesis
    by (intro conjI a b c d)
qed

section \<open>Row extraction skips headers and defaults missing fields\<close>

lemma rows_loop_append: "rows_loop (rows1 @ rows2) = rows_loop rows1 @ rows_loop rows2"
  by (induction rows1) (simp_all add: Let_def)

lemma rows_loop_concat: "rows_loop rows = concat (map (\<lambda>row. rows_loop [row]) rows)"
proof (induction rows)
  case Nil
  show ?case by simp
next
  case (Cons row rows)
  have "rows_loop (row # rows) = rows_loop ([row] @ rows)" by simp
  also have "\<dots> = rows_loop [row] @ rows_loop rows" by (rule rows_loop_append)
  finally show ?case using Cons.IH by simp
qed

lemma rows_loop_single:
  "rows_loop [row] =
     (if lower (rank_text row) = ''rank'' \<or> rank_text row = [] \<or> name_text row = [] then []
      else [\<lparr>a_rank = rank_text row, a_athlete = name_text row, a_nationality = nat_text row,
             a_age_group = age_text row, a_total_time = time_text row\<rparr>])"
proof -
  have "lower s = [] \<longleftrightarrow> s = []" for s by (simp add: lower_def)
  then show ?thesis
    by (simp add: rank_text_def name_text_def nat_text_def age_text_def time_text_def Let_def)
qed

text \<open>
  Claim C6. The records \<open>parse_result_rows\<close> yields are, row by row in document order, what
  the loop body yields for each row. A row whose rank text is empty or is \<open>rank\<close> in any
  letter case, or whose name text is empty, yields no record. A row that is not skipped
  and has no nationality element yields one record: its nationality is the empty string,
  and its rank, athlete, age group and total time are the texts of their elements. For
  each of the five fields, a missing element gives the empty string.
\<close>

theorem parse_result_rows_skips_and_defaults:
  "parse_result_rows soup = concat (map (\<lambda>row. rows_loop [row]) (find_all_rows soup))
   \<and> (\<forall>row. lower (rank_text row) = ''rank'' \<or> rank_text row = [] \<or> name_text row = []
          \<longrightarrow> rows_loop [row] = [])
   \<and> (\<forall>row. \<not> (lower (rank_text row) = ''rank'' \<or> rank_text row = [] \<or> name_text row = [])
            \<and> nat_el (remove_labels row) = None
          \<longrightarrow> rows_loop [row] =
                [\<lparr>a_rank = rank_text row, a_athlete = name_text row, a_nationality = [],
                  a_age_group = age_text row, a_total_time = time_text row\<rparr>])
   \<and> (\<forall>row. (rank_el (remove_labels row) = None \<longrightarrow> rank_text row = [])
          \<and> (name_el (remove_labels row) = None \<longrightarrow> name_text row = [])
          \<and> (nat_el (remove_labels row) = None \<longrightarrow> nat_text row = [])
          \<and> (age_el (remove_labels row) = None \<longrightarrow> age_text row = [])
          \<and> (time_el (remove_labels row) = None \<longrightarrow> time_text row = []))"
proof -
  have a: "parse_result_rows soup = concat (map (\<lambda>row. rows_loop [row]) (find_all_rows soup))"
    unfolding parse_result_rows_def by (rule rows_loop_concat)
  have b: "\<forall>row. lower (rank_text row) = ''rank'' \<or> rank_text row = [] \<or> name_text row = []
          \<longrightarrow> rows_loop [row] = []"
    by (simp add: rows_loop_single del: rows_loop.simps)
  have d: "\<forall>row. (rank_el (remove_labels row) = None \<longrightarrow> rank_text row = [])
          \<and> (name_el (remove_labels row) = None \<longrightarrow> name_text row = [])
          \<and> (nat_el (remove_labels row) = None \<longrightarrow> nat_text row = [])
          \<and> (age_el (remove_labels row) = None \<longrightarrow> age_text row = [])
          \<and> (time_el (remove_labels row) = None \<longrightarrow> time_text row = [])"
    by (simp add: rank_text_def name_text_def nat_text_def age_text_def time_text_def
        text_or_empty_def)
  have c: "\<forall>row. \<not> (lower (rank_text row) = ''rank'' \<or> rank_text row = [] \<or> name_text row = [])
            \<and> nat_el (remove_labels row) = None
          \<longrightarrow> rows_loop [row] =
                [\<lparr>a_rank = rank_text row, a_athlete = name_text row, a_nationality = [],
                  a_age_group = age_text row, a_total_time = time_text row\<rparr>]"
  proof (intro allI impI)
    fix row
    assume h: "\<not> (lower (rank_text row) = ''rank'' \<or> rank_text row = [] \<or> name_text row = [])
            \<and> nat_el (remove_labels row) = None"
    then have "nat_text row = []" using d by blast
    with h show "rows_loop [row] =
                [\<lparr>a_rank = rank_text row, a_athlete = name_text row, a_nationality = [],
                  a_age_group = age_text row, a_total_time = time_text row\<rparr>]"
      by (simp add: rows_loop_single del: rows_loop.simps)
  qed
  from a b c d show ?thesis by (intro conjI)
qed

lemma header_texts: "rank_text header_row = ''Rank''" "name_text header_row = ''Name''"
  by (simp_all add: rank_text_def name_text_def header_row_def row_eval)

lemma athlete_texts:
  "rank_text athlete_row = ''1''" "name_text athlete_row = ''Doe, John''"
  "age_text athlete_row = ''30-34''" "time_text athlete_row = ''0:52:13''"
  "nat_el (remove_labels athlete_row) = None"
  by (simp_all add: rank_text_def name_text_def age_text_def time_text_def athlete_row_def
      row_eval)

theorem parse_result_rows_skips_and_defaults_witness:
  "lower (rank_text header_row) = ''rank''
   \<and> rows_loop [header_row] = []
   \<and> nat_el (remove_labels athlete_row) = None
   \<and> rows_loop [athlete_row] =
        [\<lparr>a_rank = ''1'', a_athlete = ''Doe, John'', a_nationality = [],
          a_age_group = ''30-34'', a_total_time = ''0:52:13''\<rparr>]
   \<and> parse_result_rows (results_soup ''30 Results'') =
        [\<lparr>a_rank = ''1'', a_athlete = ''Doe, John'', a_nationality = [],
          a_age_group = ''30-34'', a_total_time = ''0:52:13''\<rparr>]"
proof -
  note inst = parse_result_rows_skips_and_defaults[of "results_soup ''30 Results''"]
  have h: "lower (rank_text header_row) = ''rank''"
    by (simp add: header_texts str_eval)
  have header: "rows_loop [header_row] = []"
    by (rule inst[THEN conjunct2, THEN conjunct1, rule_format, OF disjI1, OF h])
  have kept: "\<not> (lower (rank_text athlete_row) = ''rank'' \<or> rank_text athlete_row = []
      \<or> name_text athlete_row = [])"
    by (simp add: athlete_texts str_eval)
  have athlete: "rows_loop [athlete_row] =
        [\<lparr>a_rank = ''1'', a_athlete = ''Doe, John'', a_nationality = [],
          a_age_group = ''30-34'', a_total_time = ''0:52:13''\<rparr>]"
    using inst[THEN conjunct2, THEN conjunct2, THEN conjunct1, rule_format,
        OF conjI[OF kept athlete_texts(5)]]
    by (simp only: athlete_texts)
  have all: "parse_result_rows (results_soup ''30 Results'') =
        [\<lparr>a_rank = ''1'', a_athlete = ''Doe, John'', a_nationality = [],
          a_age_group = ''30-34'', a_total_time = ''0:52:13''\<rparr>]"
    using inst[THEN conjunct1] by (simp only: rows_of_soup list.map concat.simps header athlete append.simps)
  show ?thesis
    by (intro conjI h header athlete_texts(5) athlete all)
qed

section \<open>The dashboard's time parser\<close>

lemmas time_eval = to_seconds_def fullmatch_hms_def fullmatch_ms_def some_digits_def
  two_digits_def strip_def is_space_def whitespace_def is_digit_def digits_def
  int_of_digits_def digit_val_def Let_def

lemma to_seconds_hms: "to_seconds (Some ''0:52:13'') = Some 3133"
  by (simp add: time_eval)

lemma to_seconds_ms: "to_seconds (Some ''52:13'') = Some 3133"
  by (simp add: time_eval)

lemma to_seconds_dnf: "to_seconds (Some ''DNF'') = None"
  by (simp add: time_eval)

text \<open>Digits are neither colons nor white space.\<close>

lemma digit_not_colon: "is_digit c \<Longrightarrow> c \<noteq> CHR '':''"
  by (auto simp: is_digit_def digits_def)

lemma digit_not_space: "is_digit c \<Longrightarrow> \<not> is_space c"
  by (auto simp: is_digit_def digits_def is_space_def whitespace_def)

lemma digits_no_colon: "list_all is_digit a \<Longrightarrow> CHR '':'' \<notin> set a"
  by (auto simp: list_all_iff dest: digit_not_colon)

text \<open>Splitting at colons, and joining again.\<close>

lemma split_colon_nonempty: "split_colon t \<noteq> []"
  by (induction t) (auto split: list.splits)

lemma split_colon_plain: "CHR '':'' \<notin> set a \<Longrightarrow> split_colon a = [a]"
  by (induction a) auto

lemma split_colon_append:
  "CHR '':'' \<notin> set a \<Longrightarrow> split_colon (a @ CHR '':'' # rest) = a # split_colon rest"
  by (induction a) auto

lemma split_colon_one: "split_colon t = [a] \<Longrightarrow> t = a"
proof (induction t arbitrary: a)
  case Nil
  then show ?case by simp
next
  case (Cons x xs)
  show ?case
  proof (cases "x = CHR '':''")
    case True
    with Cons.prems split_colon_nonempty[of xs] show ?thesis by simp
  next
    case False
    with Cons.prems split_colon_nonempty[of xs]
    obtain w where "split_colon xs = [w]" and "a = x # w"
      by (cases "split_colon xs") (auto split: list.splits)
    with Cons.IH show ?thesis by simp
  qed
qed

lemma split_colon_cons:
  "split_colon t = a # b # rest \<Longrightarrow> \<exists>t'. t = a @ CHR '':'' # t' \<and> split_colon t' = b # rest"
proof (induction t arbitrary: a)
  case Nil
  then show ?case by simp
next
  case (Cons x xs)
  show ?case
  proof (cases "x = CHR '':''")
    case True
    with Cons.prems show ?thesis by simp
  next
    case False
    with Cons.prems split_colon_nonempty[of xs]
    obtain w where w: "split_colon xs = w # b # rest" and a: "a = x # w"
      by (cases "split_colon xs") (auto split: list.splits)
    from Cons.IH[OF w] obtain t' where "xs = w @ CHR '':'' # t'" "split_colon t' = b # rest"
      by blast
    with a show ?thesis by simp
  qed
qed

lemma split_colon_two: "split_colon t = [a, b] \<Longrightarrow> t = a @ CHR '':'' # b"
  by (auto dest!: split_colon_cons split_colon_one)

lemma split_colon_three:
  "split_colon t = [a, b, c] \<Longrightarrow> t = a @ CHR '':'' # b @ CHR '':'' # c"
  by (auto dest!: split_colon_cons split_colon_one)

lemma fullmatch_hms_iff:
  "fullmatch_hms t = Some (h, m, s) \<longleftrightarrow>
     t = h @ '':'' @ m @ '':'' @ s \<and> some_digits h \<and> two_digits m \<and> two_digits s"
proof
  assume "fullmatch_hms t = Some (h, m, s)"
  then have "split_colon t = [h, m, s]" and d: "some_digits h" "two_digits m" "two_digits s"
    by (auto simp: fullmatch_hms_def split: list.splits if_splits)
  from this(1) have "t = h @ CHR '':'' # m @ CHR '':'' # s" by (rule split_colon_three)
  with d show "t = h @ '':'' @ m @ '':'' @ s \<and> some_digits h \<and> two_digits m \<and> two_digits s"
    by simp
next
  assume a: "t = h @ '':'' @ m @ '':'' @ s \<and> some_digits h \<and> two_digits m \<and> two_digits s"
  then have nc: "CHR '':'' \<notin> set h" "CHR '':'' \<notin> set m" "CHR '':'' \<notin> set s"
    by (simp_all add: some_digits_def two_digits_def digits_no_colon)
  have "split_colon (h @ CHR '':'' # m @ CHR '':'' # s) = [h, m, s]"
    by (simp add: split_colon_append split_colon_plain nc)
  with a show "fullmatch_hms t = Some (h, m, s)"
    by (simp add: fullmatch_hms_def)
qed

lemma fullmatch_ms_iff:
  "fullmatch_ms t = Some (m, s) \<longleftrightarrow> t = m @ '':'' @ s \<and> some_digits m \<and> two_digits s"
proof
  assume "fullmatch_ms t = Some (m, s)"
  then have "split_colon t = [m, s]" and d: "some_digits m" "two_digits s"
    by (auto simp: fullmatch_ms_def split: list.splits if_splits)
  from this(1) have "t = m @ CHR '':'' # s" by (rule split_colon_two)
  with d show "t = m @ '':'' @ s \<and> some_digits m \<and> two_digits s"
    by simp
next
  assume a: "t = m @ '':'' @ s \<and> some_digits m \<and> two_digits s"
  then have nc: "CHR '':'' \<notin> set m" "CHR '':'' \<notin> set s"
    by (simp_all add: some_digits_def two_digits_def digits_no_colon)
  have "split_colon (m @ CHR '':'' # s) = [m, s]"
    by (simp add: split_colon_append split_colon_plain nc)
  with a show "fullmatch_ms t = Some (m, s)"
    by (simp add: fullmatch_ms_def)
qed

lemma hms_not_ms: "fullmatch_hms t = Some x \<Longrightarrow> fullmatch_ms t = None"
  by (auto simp: fullmatch_hms_def fullmatch_ms_def split: list.splits if_splits)

lemma dropWhile_padding:
  assumes "list_all P w" and "t \<noteq> []" and "\<not> P (hd t)"
  shows "dropWhile P (w @ t) = t"
proof -
  from assms(1) have "dropWhile P (w @ t) = dropWhile P t"
    by (simp add: list_all_iff)
  also from assms(2,3) have "\<dots> = t" by (cases t) simp_all
  finally show ?thesis .
qed

lemma strip_padded:
  assumes "list_all is_space w1" and "list_all is_space w2"
    and "t \<noteq> []" and "\<not> is_space (hd t)" and "\<not> is_space (last t)"
  shows "strip (w1 @ t @ w2) = t"
proof -
  from assms(3,4) have front: "dropWhile is_space (w1 @ (t @ w2)) = t @ w2"
    by (intro dropWhile_padding assms(1)) (simp_all add: hd_append)
  from assms(2) have w2: "list_all is_space (rev w2)" by (simp add: list_all_iff)
  from assms(3,5) have "dropWhile is_space (rev w2 @ rev t) = rev t"
    by (intro dropWhile_padding w2) (simp_all add: hd_rev)
  then show ?thesis
    by (simp add: strip_def front)
qed

lemma strip_plain:
  assumes "t \<noteq> []" and "\<not> is_space (hd t)" and "\<not> is_space (last t)"
  shows "strip t = t"
  using strip_padded[of "[]" "[]" t] assms by simp

lemma some_digits_ends: "some_digits h \<Longrightarrow> h \<noteq> [] \<and> is_digit (hd h) \<and> is_digit (last h)"
  by (cases h) (auto simp: some_digits_def list_all_iff)

lemma two_digits_ends: "two_digits s \<Longrightarrow> s \<noteq> [] \<and> is_digit (hd s) \<and> is_digit (last s)"
  by (cases s) (auto simp: two_digits_def list_all_iff)

lemma to_seconds_hms_general:
  assumes "some_digits h" and "two_digits m" and "two_digits s"
    and "list_all is_space w1" and "list_all is_space w2"
  shows "to_seconds (Some (w1 @ (h @ '':'' @ m @ '':'' @ s) @ w2))
           = Some (int_of_digits h * 3600 + int_of_digits m * 60 + int_of_digits s)"
proof -
  let ?t = "h @ '':'' @ m @ '':'' @ s"
  from some_digits_ends[OF assms(1)] two_digits_ends[OF assms(3)]
  have "?t \<noteq> []" "\<not> is_space (hd ?t)" "\<not> is_space (last ?t)"
    by (simp_all add: hd_append digit_not_space)
  with assms(4,5) have "strip (w1 @ ?t @ w2) = ?t"
    by (intro strip_padded)
  moreover from assms(1,2,3) have "fullmatch_hms ?t = Some (h, m, s)"
    by (simp add: fullmatch_hms_iff)
  ultimately show ?thesis
    by (simp add: to_seconds_def)
qed

lemma to_seconds_ms_general:
  assumes "some_digits m" and "two_digits s"
    and "list_all is_space w1" and "list_all is_space w2"
  shows "to_seconds (Some (w1 @ (m @ '':'' @ s) @ w2))
           = Some (int_of_digits m * 60 + int_of_digits s)"
proof -
  let ?t = "m @ '':'' @ s"
  from some_digits_ends[OF assms(1)] two_digits_ends[OF assms(2)]
  have "?t \<noteq> []" "\<not> is_space (hd ?t)" "\<not> is_space (last ?t)"
    by (simp_all add: hd_append digit_not_space)
  with assms(3,4) have "strip (w1 @ ?t @ w2) = ?t"
    by (intro strip_padded)
  moreover from assms(1,2) have ms: "fullmatch_ms ?t = Some (m, s)"
    by (simp add: fullmatch_ms_iff)
  moreover have "fullmatch_hms ?t = None"
  proof (cases "fullmatch_hms ?t")
    case (Some x)
    from hms_not_ms[OF this] ms show ?thesis by simp
  qed simp
  ultimately show ?thesis
    by (simp add: to_seconds_def)
qed

lemma int_of_digits_snoc: "int_of_digits (ds @ [d]) = 10 * int_of_digits ds + digit_val d"
  by (simp add: int_of_digits_def)

lemma digit_values: "map digit_val ''0123456789'' = [0, 1, 2, 3, 4, 5, 6, 7, 8, 9]"
  by (simp add: digit_val_def digits_def)

lemma to_seconds_some_iff:
  "(\<exists>secs. to_seconds cell = Some secs) \<longleftrightarrow>
     (\<exists>t. cell = Some t \<and>
        ((\<exists>h m s. strip t = h @ '':'' @ m @ '':'' @ s
                  \<and> some_digits h \<and> two_digits m \<and> two_digits s)
         \<or> (\<exists>m s. strip t = m @ '':'' @ s \<and> some_digits m \<and> two_digits s)))"
proof (cases cell)
  case None
  then show ?thesis by (simp add: to_seconds_def)
next
  case (Some t)
  have hms: "(\<exists>h m s. strip t = h @ '':'' @ m @ '':'' @ s
                  \<and> some_digits h \<and> two_digits m \<and> two_digits s)
      \<longleftrightarrow> fullmatch_hms (strip t) \<noteq> None"
  proof
    assume "\<exists>h m s. strip t = h @ '':'' @ m @ '':'' @ s
                  \<and> some_digits h \<and> two_digits m \<and> two_digits s"
    then obtain h m s where "fullmatch_hms (strip t) = Some (h, m, s)"
      unfolding fullmatch_hms_iff by blast
    then show "fullmatch_hms (strip t) \<noteq> None" by simp
  next
    assume "fullmatch_hms (strip t) \<noteq> None"
    then obtain h m s where "fullmatch_hms (strip t) = Some (h, m, s)"
      by (cases "fullmatch_hms (strip t)") auto
    then show "\<exists>h m s. strip t = h @ '':'' @ m @ '':'' @ s
                  \<and> some_digits h \<and> two_digits m \<and> two_digits s"
      unfolding fullmatch_hms_iff by blast
  qed
  have ms: "(\<exists>m s. strip t = m @ '':'' @ s \<and> some_digits m \<and> two_digits s)
      \<longleftrightarrow> fullmatch_ms (strip t) \<noteq> None"
  proof
    assume "\<exists>m s. strip t = m @ '':'' @ s \<and> some_digits m \<and> two_digits s"
    then obtain m s where "fullmatch_ms (strip t) = Some (m, s)"
      unfolding fullmatch_ms_iff by blast
    then show "fullmatch_ms (strip t) \<noteq> None" by simp
  next
    assume "fullmatch_ms (strip t) \<noteq> None"
    then obtain m s where "fullmatch_ms (strip t) = Some (m, s)"
      by (cases "fullmatch_ms (strip t)") auto
    then show "\<exists>m s. strip t = m @ '':'' @ s \<and> some_digits m \<and> two_digits s"
      unfolding fullmatch_ms_iff by blast
  qed
  have "(\<exists>secs. to_seconds (Some t) = Some secs)
      \<longleftrightarrow> fullmatch_hms (strip t) \<noteq> None \<or> fullmatch_ms (strip t) \<noteq> None"
    by (auto simp: to_seconds_def Let_def split: option.splits)
  with hms ms Some show ?thesis by simp
qed

lemma load_data_kept:
  "map fst (load_data df) = filter (\<lambda>r. to_seconds (total_time_cell r) \<noteq> None) df"
  by (induction df) (auto simp: load_data_def map_filter_def)

lemma set_load_data:
  "set (load_data df) = {(r, secs). r \<in> set df \<and> to_seconds (total_time_cell r) = Some secs}"
  by (induction df) (auto simp: load_data_def map_filter_simps split: option.splits)

text \<open>
  Claim C5. \<open>to_seconds\<close> maps \<open>0:52:13\<close> to 3133 and \<open>52:13\<close> to 3133. In general, a
  string that is, between white space at its two ends, \<open>h:mm:ss\<close> with \<open>h\<close> one or more
  digits and \<open>mm\<close>, \<open>ss\<close> two digits each is mapped to \<open>3600 h + 60 mm + ss\<close>, and one that
  is \<open>m:ss\<close> with \<open>m\<close> one or more digits and \<open>ss\<close> two digits is mapped to \<open>60 m + ss\<close>,
  the digit strings read as decimal numbers. A record of the data frame is among the
  records \<open>load_data\<close> returns if and only if it has a total-time string that, stripped
  of its surrounding white space, has one of these two forms; every other record is
  dropped, and a returned record comes with the seconds \<open>to_seconds\<close> gives for it.
\<close>

theorem to_seconds_parses_and_load_data_drops:
  "to_seconds (Some ''0:52:13'') = Some 3133
   \<and> to_seconds (Some ''52:13'') = Some 3133
   \<and> (\<forall>h m s w1 w2. some_digits h \<and> two_digits m \<and> two_digits s
          \<and> list_all is_space w1 \<and> list_all is_space w2
        \<longrightarrow> to_seconds (Some (w1 @ (h @ '':'' @ m @ '':'' @ s) @ w2))
              = Some (int_of_digits h * 3600 + int_of_digits m * 60 + int_of_digits s))
   \<and> (\<forall>m s w1 w2. some_digits m \<and> two_digits s
          \<and> list_all is_space w1 \<and> list_all is_space w2
        \<longrightarrow> to_seconds (Some (w1 @ (m @ '':'' @ s) @ w2))
              = Some (int_of_digits m * 60 + int_of_digits s))
   \<and> int_of_digits [] = 0
   \<and> (\<forall>ds d. int_of_digits (ds @ [d]) = 10 * int_of_digits ds + digit_val d)
   \<and> map digit_val ''0123456789'' = [0, 1, 2, 3, 4, 5, 6, 7, 8, 9]
   \<and> (\<forall>r \<in> set df.
         r \<in> set (map fst (load_data df)) \<longleftrightarrow>
           (\<exists>t. total_time_cell r = Some t \<and>
              ((\<exists>h m s. strip t = h @ '':'' @ m @ '':'' @ s
                        \<and> some_digits h \<and> two_digits m \<and> two_digits s)
               \<or> (\<exists>m s. strip t = m @ '':'' @ s \<and> some_digits m \<and> two_digits s))))
   \<and> (\<forall>r secs. (r, secs) \<in> set (load_data df)
         \<longrightarrow> r \<in> set df \<and> to_seconds (total_time_cell r) = Some secs)"
proof -
  have hms: "\<forall>h m s w1 w2. some_digits h \<and> two_digits m \<and> two_digits s
          \<and> list_all is_space w1 \<and> list_all is_space w2
        \<longrightarrow> to_seconds (Some (w1 @ (h @ '':'' @ m @ '':'' @ s) @ w2))
              = Some (int_of_digits h * 3600 + int_of_digits m * 60 + int_of_digits s)"
    using to_seconds_hms_general by blast
  have ms: "\<forall>m s w1 w2. some_digits m \<and> two_digits s
          \<and> list_all is_space w1 \<and> list_all is_space w2
        \<longrightarrow> to_seconds (Some (w1 @ (m @ '':'' @ s) @ w2))
              = Some (int_of_digits m * 60 + int_of_digits s)"
    using to_seconds_ms_general by blast
  have zero: "int_of_digits [] = 0" by (simp add: int_of_digits_def)
  have snoc: "\<forall>ds d. int_of_digits (ds @ [d]) = 10 * int_of_digits ds + digit_val d"
    by (simp add: int_of_digits_snoc)
  have kept: "\<forall>r \<in> set df.
         r \<in> set (map fst (load_data df)) \<longleftrightarrow>
           (\<exists>t. total_time_cell r = Some t \<and>
              ((\<exists>h m s. strip t = h @ '':'' @ m @ '':'' @ s
                        \<and> some_digits h \<and> two_digits m \<and> two_digits s)
               \<or> (\<exists>m s. strip t = m @ '':'' @ s \<and> some_digits m \<and> two_digits s)))"
  proof
    fix r assume r: "r \<in> set df"
    then have "r \<in> set (map fst (load_data df))
        \<longleftrightarrow> (\<exists>secs. to_seconds (total_time_cell r) = Some secs)"
      by (simp add: load_data_kept)
    then show "r \<in> set (map fst (load_data df)) \<longleftrightarrow>
           (\<exists>t. total_time_cell r = Some t \<and>
              ((\<exists>h m s. strip t = h @ '':'' @ m @ '':'' @ s
                        \<and> some_digits h \<and> two_digits m \<and> two_digits s)
               \<or> (\<exists>m s. strip t = m @ '':'' @ s \<and> some_digits m \<and> two_digits s)))"
      by (simp only: to_seconds_some_iff)
  qed
  have paired: "\<forall>r secs. (r, secs) \<in> set (load_data df)
         \<longrightarrow> r \<in> set df \<and> to_seconds (total_time_cell r) = Some secs"
    by (simp add: set_load_data)
  from to_seconds_hms to_seconds_ms hms ms zero snoc digit_values kept paired
  show ?thesis by (intro conjI)
qed

lemma digit_strings:
  "some_digits ''1''" "some_digits ''100''" "two_digits ''02''" "two_digits ''03''"
  "two_digits ''00''" "some_digits ''52''" "two_digits ''13''"
  by (simp_all add: some_digits_def two_digits_def is_digit_def digits_def)

lemma digit_ints:
  "int_of_digits ''1'' = 1" "int_of_digits ''100'' = 100" "int_of_digits ''02'' = 2"
  "int_of_digits ''03'' = 3" "int_of_digits ''00'' = 0" "int_of_digits ''52'' = 52"
  "int_of_digits ''13'' = 13"
  by (simp_all add: int_of_digits_def digit_val_def digits_def)

lemma dnf_shape: "split_colon (strip ''DNF'') = [''DNF'']"
  by (simp add: strip_def is_space_def whitespace_def)

theorem to_seconds_parses_and_load_data_drops_witness:
  "to_seconds (Some ''1:02:03'') = Some 3723
   \<and> to_seconds (Some ''100:00'') = Some 6000
   \<and> to_seconds (Some ([nbsp] @ ''52:13'' @ '' '')) = Some 3133
   \<and> time_record (Some ''DNF'')
       \<notin> set (map fst (load_data [time_record (Some ''0:52:13''), time_record (Some ''DNF''),
                                    time_record None]))
   \<and> time_record None
       \<notin> set (map fst (load_data [time_record (Some ''0:52:13''), time_record (Some ''DNF''),
                                    time_record None]))
   \<and> time_record (Some ''0:52:13'')
       \<in> set (map fst (load_data [time_record (Some ''0:52:13''), time_record (Some ''DNF''),
                                    time_record None]))"
proof -
  let ?df = "[time_record (Some ''0:52:13''), time_record (Some ''DNF''), time_record None]"
  note inst = to_seconds_parses_and_load_data_drops[of ?df]
  note hms = inst[THEN conjunct2, THEN conjunct2, THEN conjunct1, rule_format]
  note ms = inst[THEN conjunct2, THEN conjunct2, THEN conjunct2, THEN conjunct1, rule_format]
  note kept = inst[THEN conjunct2, THEN conjunct2, THEN conjunct2, THEN conjunct2,
      THEN conjunct2, THEN conjunct2, THEN conjunct2, THEN conjunct1, rule_format]
  have pad: "is_space nbsp" "is_space CHR '' ''"
    by (simp_all add: is_space_def whitespace_def nbsp_def)
  have a: "to_seconds (Some ''1:02:03'') = Some 3723"
    using hms[of "''1''" "''02''" "''03''" "[]" "[]"] by (simp add: digit_strings digit_ints)
  have b: "to_seconds (Some ''100:00'') = Some 6000"
    using ms[of "''100''" "''00''" "[]" "[]"] by (simp add: digit_strings digit_ints)
  have c: "to_seconds (Some ([nbsp] @ ''52:13'' @ '' '')) = Some 3133"
    using ms[of "''52''" "''13''" "[nbsp]" "'' ''"] by (simp add: digit_strings digit_ints pad)
  have cells: "total_time_cell (time_record cell) = cell" for cell
    by (simp add: time_record_def)
  have no_hms: "\<not> (\<exists>h m s. strip ''DNF'' = h @ '':'' @ m @ '':'' @ s
                        \<and> some_digits h \<and> two_digits m \<and> two_digits s)"
  proof
    assume "\<exists>h m s. strip ''DNF'' = h @ '':'' @ m @ '':'' @ s
                        \<and> some_digits h \<and> two_digits m \<and> two_digits s"
    then obtain h m s where "fullmatch_hms (strip ''DNF'') = Some (h, m, s)"
      unfolding fullmatch_hms_iff by blast
    then show False by (simp add: fullmatch_hms_def dnf_shape)
  qed
  have no_ms: "\<not> (\<exists>m s. strip ''DNF'' = m @ '':'' @ s \<and> some_digits m \<and> two_digits s)"
  proof
    assume "\<exists>m s. strip ''DNF'' = m @ '':'' @ s \<and> some_digits m \<and> two_digits s"
    then obtain m s where "fullmatch_ms (strip ''DNF'') = Some (m, s)"
      unfolding fullmatch_ms_iff by blast
    then show False by (simp add: fullmatch_ms_def dnf_shape)
  qed
  have d: "time_record (Some ''DNF'') \<notin> set (map fst (load_data ?df))"
    using kept[of "time_record (Some ''DNF'')"] no_hms no_ms by (simp add: cells)
  have e: "time_record None \<notin> set (map fst (load_data ?df))"
    using kept[of "time_record None"] by (simp add: cells)
  have shape: "strip ''0:52:13'' = ''0'' @ '':'' @ ''52'' @ '':'' @ ''13''
      \<and> some_digits ''0'' \<and> two_digits ''52'' \<and> two_digits ''13''"
    by (simp add: strip_def is_space_def whitespace_def some_digits_def two_digits_def
        is_digit_def digits_def)
  have f: "time_record (Some ''0:52:13'') \<in> set (map fst (load_data ?df))"
    using kept[of "time_record (Some ''0:52:13'')"] shape by (simp only: cells) auto
  show ?thesis
    by (intro conjI a b c d e f)
qed

section \<open>The Open filter and the preference for overall rankings\<close>

lemma overall_filter_strings:
  assumes "\<forall>opt \<in> set opts. is_str (opt_value opt)"
  shows "overall_filter want opts = Inr (filter (\<lambda>opt. has_overall opt = want) opts)"
  using assms
proof (induction opts)
  case Nil
  then show ?case by simp
next
  case (Cons opt opts)
  from Cons.prems obtain s where s: "opt_value opt = JStr s"
    by (cases "opt_value opt") auto
  from Cons.prems have "overall_filter want opts
      = Inr (filter (\<lambda>opt. has_overall opt = want) opts)"
    by (intro Cons.IH) simp
  then show ?case
    by (simp add: s has_overall_def)
qed

lemma open_filter_strings:
  assumes "\<forall>opt \<in> set opts. is_str (opt_value opt)"
  shows "open_filter opts
           = Inr (filter (\<lambda>opt. category_from_code (code_of opt) = ''HYROX'') opts)"
  using assms
proof (induction opts)
  case Nil
  then show ?case by simp
next
  case (Cons opt opts)
  from Cons.prems obtain s where s: "opt_value opt = JStr s"
    by (cases "opt_value opt") auto
  from Cons.prems have "open_filter opts
      = Inr (filter (\<lambda>opt. category_from_code (code_of opt) = ''HYROX'') opts)"
    by (intro Cons.IH) simp
  then show ?case
    by (simp add: s)
qed

lemma open_filter_result_strings:
  "open_filter event_opts = Inr opts \<Longrightarrow> \<forall>opt \<in> set opts. is_str (opt_value opt)"
proof (induction event_opts arbitrary: opts)
  case Nil
  then show ?case by simp
next
  case (Cons opt rest)
  from Cons.prems obtain s where s: "opt_value opt = JStr s"
    by (cases "opt_value opt") auto
  from Cons.prems s obtain r where r: "open_filter rest = Inr r"
    by (cases "open_filter rest") auto
  from Cons.IH[OF r] have ih: "\<forall>opt \<in> set r. is_str (opt_value opt)" .
  from Cons.prems s r have "opts = (if category_from_code s = ''HYROX'' then opt # r else r)"
    by simp
  with ih s show ?case by (auto split: if_splits)
qed

lemma open_filter_input_strings:
  "open_filter event_opts = Inr opts \<Longrightarrow> \<forall>opt \<in> set event_opts. is_str (opt_value opt)"
proof (induction event_opts arbitrary: opts)
  case Nil
  then show ?case by simp
next
  case (Cons opt rest)
  from Cons.prems obtain s where s: "opt_value opt = JStr s"
    by (cases "opt_value opt") auto
  from Cons.prems s obtain r where r: "open_filter rest = Inr r"
    by (cases "open_filter rest") auto
  from Cons.IH[OF r] s show ?case by simp
qed

lemma use_opts_strings:
  assumes "\<forall>opt \<in> set opts. is_str (opt_value opt)"
  shows "use_opts opts =
           Inr (if \<exists>opt \<in> set opts. has_overall opt then filter has_overall opts
                else filter (\<lambda>opt. \<not> has_overall opt) opts)"
proof -
  have t: "overall_filter True opts = Inr (filter has_overall opts)"
    using overall_filter_strings[OF assms, of True] by simp
  have f: "overall_filter False opts = Inr (filter (\<lambda>opt. \<not> has_overall opt) opts)"
    using overall_filter_strings[OF assms, of False] by simp
  show ?thesis
    by (simp add: use_opts_def t f filter_empty_conv)
qed

text \<open>The event loop scrapes every option of its list, in order, for the one gender.\<close>

lemma events_loop_scrapes:
  assumes "\<forall>opt \<in> set opts. is_str (opt_value opt)"
  shows "events_loop net season base_url emg opts st
           = (None, scrape_all net season base_url emg opts st)"
  using assms
proof (induction opts arbitrary: st)
  case Nil
  show ?case by (simp add: scrape_all_def)
next
  case (Cons opt opts)
  from Cons.prems obtain code where code: "opt_value opt = JStr code"
    by (cases "opt_value opt") auto
  let ?c = "\<lparr>c_base_url = base_url, c_season = season, c_event_main_group = emg,
              c_event_code = code, c_event_label = opt_text opt,
              c_category = category_from_code code, c_gender = []\<rparr>"
  have g: "genders_loop net ?c GENDERS st
      = scrape_combo net (combo_for season base_url emg opt) st"
    by (simp add: GENDERS_def combo_for_def code)
  from Cons.prems have "events_loop net season base_url emg opts
        (scrape_combo net (combo_for season base_url emg opt) st)
      = (None, scrape_all net season base_url emg opts
          (scrape_combo net (combo_for season base_url emg opt) st))"
    by (intro Cons.IH) simp
  then show ?case
    by (simp add: code g scrape_all_def)
qed

text \<open>What one turn of the group loop does once the Open filter has returned.\<close>

lemma groups_loop_collects:
  assumes "get_event_codes net base_url (opt_value eg) st = (Inr event_opts, st1)"
    and "open_filter event_opts = Inr opts"
  shows "groups_loop net season base_url (eg # rest) st
           = groups_loop net season base_url rest
               (scrape_all net season base_url (opt_value eg)
                  (if \<exists>opt \<in> set opts. has_overall opt then filter has_overall opts
                   else filter (\<lambda>opt. \<not> has_overall opt) opts) st1)"
proof -
  let ?sel = "if \<exists>opt \<in> set opts. has_overall opt then filter has_overall opts
              else filter (\<lambda>opt. \<not> has_overall opt) opts"
  from assms(2) have strs: "\<forall>opt \<in> set opts. is_str (opt_value opt)"
    by (rule open_filter_result_strings)
  then have use: "use_opts opts = Inr ?sel" by (rule use_opts_strings)
  from strs have "\<forall>opt \<in> set ?sel. is_str (opt_value opt)" by simp
  then have ev: "events_loop net season base_url (opt_value eg) ?sel st1
      = (None, scrape_all net season base_url (opt_value eg) ?sel st1)"
    by (rule events_loop_scrapes)
  show ?thesis
  proof (cases "event_opts = []")
    case True
    with assms(2) have "opts = []" by simp
    with True assms(1) show ?thesis by (simp add: scrape_all_def)
  next
    case False
    show ?thesis
    proof (cases "opts = []")
      case True
      with False assms show ?thesis by (simp add: scrape_all_def ONLY_OPEN_def)
    next
      case nonempty: False
      with False assms use ev show ?thesis
        by (simp add: ONLY_OPEN_def del: events_loop.simps)
    qed
  qed
qed

text \<open>
  Claim C8. Let the driver be at an event group \<open>eg\<close> whose event codes were fetched, and
  let \<open>opts\<close> be the list its Open filter returned. If the code of some option of \<open>opts\<close>
  contains \<open>OVERALL\<close> once upper-cased, the selection is the list of exactly those
  options, in order; otherwise it is the list of the options whose code does not contain
  it, which is then all of \<open>opts\<close>. \<open>use_opts\<close> is this selection, and the turn of
  \<open>groups_loop\<close> for \<open>eg\<close> calls \<open>scrape_combo\<close> once for each option of the selection,
  in order, and for no other option, before it goes on with the remaining groups; this
  is also what \<open>events_loop\<close> does on the selection.
\<close>

theorem use_opts_prefers_overall:
  assumes "get_event_codes net base_url (opt_value eg) st = (Inr event_opts, st1)"
    and "open_filter event_opts = Inr opts"
  shows "use_opts opts =
           Inr (if \<exists>opt \<in> set opts. has_overall opt then filter has_overall opts
                else filter (\<lambda>opt. \<not> has_overall opt) opts)
       \<and> ((\<forall>opt \<in> set opts. \<not> has_overall opt) \<longrightarrow> use_opts opts = Inr opts)
       \<and> groups_loop net season base_url (eg # rest) st
           = groups_loop net season base_url rest
               (scrape_all net season base_url (opt_value eg)
                  (if \<exists>opt \<in> set opts. has_overall opt then filter has_overall opts
                   else filter (\<lambda>opt. \<not> has_overall opt) opts) st1)
       \<and> events_loop net season base_url (opt_value eg)
             (if \<exists>opt \<in> set opts. has_overall opt then filter has_overall opts
              else filter (\<lambda>opt. \<not> has_overall opt) opts) st1
           = (None, scrape_all net season base_url (opt_value eg)
                (if \<exists>opt \<in> set opts. has_overall opt then filter has_overall opts
                 else filter (\<lambda>opt. \<not> has_overall opt) opts) st1)"
proof -
  from assms(2) have strs: "\<forall>opt \<in> set opts. is_str (opt_value opt)"
    by (rule open_filter_result_strings)
  then have a: "use_opts opts =
           Inr (if \<exists>opt \<in> set opts. has_overall opt then filter has_overall opts
                else filter (\<lambda>opt. \<not> has_overall opt) opts)"
    by (rule use_opts_strings)
  have b: "(\<forall>opt \<in> set opts. \<not> has_overall opt) \<longrightarrow> use_opts opts = Inr opts"
    by (simp add: a)
  have c: "groups_loop net season base_url (eg # rest) st
           = groups_loop net season base_url rest
               (scrape_all net season base_url (opt_value eg)
                  (if \<exists>opt \<in> set opts. has_overall opt then filter has_overall opts
                   else filter (\<lambda>opt. \<not> has_overall opt) opts) st1)"
    using assms by (rule groups_loop_collects)
  from strs have "\<forall>opt \<in> set (if \<exists>opt \<in> set opts. has_overall opt
      then filter has_overall opts else filter (\<lambda>opt. \<not> has_overall opt) opts).
      is_str (opt_value opt)" by simp
  then have d: "events_loop net season base_url (opt_value eg)
             (if \<exists>opt \<in> set opts. has_overall opt then filter has_overall opts
              else filter (\<lambda>opt. \<not> has_overall opt) opts) st1
           = (None, scrape_all net season base_url (opt_value eg)
                (if \<exists>opt \<in> set opts. has_overall opt then filter has_overall opts
                 else filter (\<lambda>opt. \<not> has_overall opt) opts) st1)"
    by (rule events_loop_scrapes)
  from a b c d show ?thesis by (intro conjI)
qed

lemmas opt_eval = has_overall_def opt_overall_def opt_pro_def opt_saturday_def opt_unknown_def
  str_eval sublist_code

text \<open>The example combination is the one the driver builds for the overall option.\<close>

lemma combo_for_overall:
  "combo_for ''Season 8'' ''https://results.hyrox.com/season-8/'' (JStr ''2025 Wien'') opt_overall
     = demo_combo"
  by (simp add: combo_for_def opt_overall_def demo_combo_def demo_categories)

lemma scrape_30:
  assumes "combo_key demo_combo \<notin> done_keys st"
    and "\<And>h p. net h (page_request demo_combo p) = answer (results_soup ''30 Results'')"
  shows "scrape_combo net demo_combo st =
           st\<lparr>exchanges := exchanges st @
                 [(page_request demo_combo 1, answer (results_soup ''30 Results'')),
                  (page_request demo_combo 2, answer (results_soup ''30 Results''))],
              store := store st @ [demo_row, demo_row],
              done_keys := insert (combo_key demo_combo) (done_keys st)\<rparr>"
proof -
  have key: "(c_event_code demo_combo, c_gender demo_combo) \<notin> done_keys st"
    using assms(1) by (simp add: combo_key_def)
  have net: "net h (ResultsPage (c_base_url demo_combo) (c_event_main_group demo_combo)
      (c_event_code demo_combo) (c_gender demo_combo) p) = answer (results_soup ''30 Results'')"
    for h p using assms(2)[of h p] by (simp add: page_request_def)
  have row: "writerow demo_combo
      \<lparr>a_rank = ''1'', a_athlete = ''Doe, John'', a_nationality = [],
       a_age_group = ''30-34'', a_total_time = ''0:52:13''\<rparr> = demo_row"
    by (simp add: writerow_def demo_combo_def demo_row_def)
  show ?thesis
    by (simp add: scrape_combo_def get_results_page_def polite_get_def write_page_def
        fetch_pages_def total_pages_def PER_PAGE_def MAX_PAGES_def Let_def key net
        answer_def combo_key_def page_request_def
        rows_results_soup count_results_30 upto_1_numeral row)
qed

lemma demo_site_pages:
  "demo_site h (page_request demo_combo p) = answer (results_soup ''30 Results'')"
  "mixed_site h (page_request demo_combo p) = answer (results_soup ''30 Results'')"
  by (simp_all add: demo_site_def mixed_site_def page_request_def)

lemma demo_site_codes:
  "get_event_codes demo_site ''https://results.hyrox.com/season-8/'' (opt_value demo_group) st
     = (Inr [opt_overall, opt_pro, opt_saturday],
        st\<lparr>exchanges := exchanges st @
          [(SearchFields ''https://results.hyrox.com/season-8/'' (Some (JStr ''2025 Wien'')),
            Inr \<lparr>resp_json = Some codes_json, resp_soup = Text []\<rparr>)]\<rparr>)"
  by (simp add: get_event_codes_def polite_get_def demo_site_def demo_codes demo_group_def
      Let_def)

lemma overall_flags:
  "has_overall opt_overall" "\<not> has_overall opt_saturday" "\<not> has_overall opt_unknown"
  by (simp_all add: opt_eval)

theorem use_opts_prefers_overall_witness:
  "open_filter [opt_overall, opt_pro, opt_saturday] = Inr [opt_overall, opt_saturday]
   \<and> use_opts [opt_overall, opt_saturday] = Inr [opt_overall]
   \<and> filter (\<lambda>q. request_key q \<noteq> None)
        (map fst (exchanges (snd (groups_loop demo_site ''Season 8''
           ''https://results.hyrox.com/season-8/'' [demo_group] fresh))))
       = [page_request demo_combo 1, page_request demo_combo 2]"
proof -
  let ?b = "''https://results.hyrox.com/season-8/''"
  let ?st1 = "fresh\<lparr>exchanges := exchanges fresh @
          [(SearchFields ?b (Some (JStr ''2025 Wien'')),
            Inr \<lparr>resp_json = Some codes_json, resp_soup = Text []\<rparr>)]\<rparr>"
  note inst = use_opts_prefers_overall[where net = demo_site and season = "''Season 8''"
      and rest = "[]", OF demo_site_codes[of fresh] demo_open]
  have sel: "(if \<exists>opt \<in> set [opt_overall, opt_saturday]. has_overall opt
      then filter has_overall [opt_overall, opt_saturday]
      else filter (\<lambda>opt. \<not> has_overall opt) [opt_overall, opt_saturday]) = [opt_overall]"
    by (simp add: overall_flags)
  have a: "use_opts [opt_overall, opt_saturday] = Inr [opt_overall]"
    using inst[THEN conjunct1] by (simp only: sel)
  have key: "combo_key demo_combo \<notin> done_keys ?st1"
    by (simp add: fresh_fields)
  have run: "groups_loop demo_site ''Season 8'' ?b [demo_group] fresh
      = (None, scrape_combo demo_site demo_combo ?st1)"
    using inst[THEN conjunct2, THEN conjunct2, THEN conjunct1]
    by (simp only: sel) (simp add: scrape_all_def combo_for_overall demo_group_def)
  have b: "filter (\<lambda>q. request_key q \<noteq> None)
        (map fst (exchanges (snd (groups_loop demo_site ''Season 8'' ?b [demo_group] fresh))))
       = [page_request demo_combo 1, page_request demo_combo 2]"
    unfolding run scrape_30[where net = demo_site, OF key demo_site_pages(1)]
    by (simp add: fresh_fields request_key_page)
  show ?thesis
    by (intro conjI demo_open a b)
qed

text \<open>
  Claim C9. Let the driver be at an event group \<open>eg\<close> whose event codes were fetched, let
  \<open>opts\<close> be the list its Open filter returned, and let \<open>opt\<close> be a fetched option whose
  upper-cased code starts with no configured prefix. Then \<open>category_from_code\<close> gives the
  code the label \<open>HYROX\<close>, the label the Open filter compares with, and the filter keeps
  \<open>opt\<close>. The turn of \<open>groups_loop\<close> for \<open>eg\<close> scrapes the options the overall preference
  selects; \<open>opt\<close> is one of them, and is then scraped under its code with the category
  \<open>HYROX\<close>, exactly when its code contains \<open>OVERALL\<close> or no code of \<open>opts\<close> does.
\<close>

theorem open_filter_keeps_unprefixed_codes:
  assumes "get_event_codes net base_url (opt_value eg) st = (Inr event_opts, st1)"
    and "open_filter event_opts = Inr opts"
    and "opt \<in> set event_opts" and "opt_value opt = JStr code"
    and "\<forall>(p, n) \<in> set CATEGORY_PREFIXES. \<not> prefix p (upper code)"
  shows "category_from_code code = ''HYROX''
       \<and> opt \<in> set opts
       \<and> c_event_code (combo_for season base_url (opt_value eg) opt) = code
       \<and> c_category (combo_for season base_url (opt_value eg) opt) = ''HYROX''
       \<and> groups_loop net season base_url (eg # rest) st
           = groups_loop net season base_url rest
               (scrape_all net season base_url (opt_value eg)
                  (if \<exists>other \<in> set opts. has_overall other then filter has_overall opts
                   else filter (\<lambda>other. \<not> has_overall other) opts) st1)
       \<and> (opt \<in> set (if \<exists>other \<in> set opts. has_overall other then filter has_overall opts
                       else filter (\<lambda>other. \<not> has_overall other) opts)
            \<longleftrightarrow> has_overall opt \<or> (\<forall>other \<in> set opts. \<not> has_overall other))"
proof -
  from assms(5) have cat: "category_from_code code = ''HYROX''"
    unfolding category_from_code_def by (rule category_loop_no_match)
  from assms(2) have "\<forall>opt \<in> set event_opts. is_str (opt_value opt)"
    by (rule open_filter_input_strings)
  then have "open_filter event_opts
      = Inr (filter (\<lambda>opt. category_from_code (code_of opt) = ''HYROX'') event_opts)"
    by (rule open_filter_strings)
  with assms(2) have opts: "opts
      = filter (\<lambda>opt. category_from_code (code_of opt) = ''HYROX'') event_opts"
    by simp
  from assms(3,4) cat have kept: "opt \<in> set opts"
    by (simp add: opts)
  have code: "c_event_code (combo_for season base_url (opt_value eg) opt) = code"
    by (simp add: combo_for_def assms(4))
  have label: "c_category (combo_for season base_url (opt_value eg) opt) = ''HYROX''"
    by (simp add: combo_for_def assms(4) cat)
  have loop: "groups_loop net season base_url (eg # rest) st
           = groups_loop net season base_url rest
               (scrape_all net season base_url (opt_value eg)
                  (if \<exists>other \<in> set opts. has_overall other then filter has_overall opts
                   else filter (\<lambda>other. \<not> has_overall other) opts) st1)"
    using assms(1,2) by (rule groups_loop_collects)
  have sel: "opt \<in> set (if \<exists>other \<in> set opts. has_overall other then filter has_overall opts
                       else filter (\<lambda>other. \<not> has_overall other) opts)
            \<longleftrightarrow> has_overall opt \<or> (\<forall>other \<in> set opts. \<not> has_overall other)"
    using kept by auto
  from cat kept code label loop sel show ?thesis by (intro conjI)
qed

lemma mixed_codes: "event_codes_of (Some mixed_json) = Inr [opt_overall, opt_unknown]"
  by (simp add: event_codes_of_def event_list_def mixed_json_def opt_overall_def
      opt_unknown_def)

lemma mixed_site_codes:
  "get_event_codes mixed_site ''https://results.hyrox.com/season-8/'' (opt_value demo_group) st
     = (Inr [opt_overall, opt_unknown],
        st\<lparr>exchanges := exchanges st @
          [(SearchFields ''https://results.hyrox.com/season-8/'' (Some (JStr ''2025 Wien'')),
            Inr \<lparr>resp_json = Some mixed_json, resp_soup = Text []\<rparr>)]\<rparr>)"
  by (simp add: get_event_codes_def polite_get_def mixed_site_def mixed_codes demo_group_def
      Let_def)

lemma unknown_upper: "upper ''xyz_2024'' = ''XYZ_2024''"
  by (simp add: str_eval)

lemma unknown_no_prefix:
  "\<forall>(p, n) \<in> set CATEGORY_PREFIXES. \<not> prefix p (upper ''xyz_2024'')"
  by (simp add: unknown_upper CATEGORY_PREFIXES_def)

lemma unknown_category: "category_from_code ''xyz_2024'' = ''HYROX''"
  using unknown_no_prefix unfolding category_from_code_def by (rule category_loop_no_match)

lemma mixed_open: "open_filter [opt_overall, opt_unknown] = Inr [opt_overall, opt_unknown]"
  by (simp add: demo_categories unknown_category opt_overall_def opt_unknown_def)

lemma mixed_use: "use_opts [opt_overall, opt_unknown] = Inr [opt_overall]"
  by (simp add: use_opts_def opt_overall_def opt_unknown_def str_eval sublist_code)

theorem open_filter_keeps_unprefixed_codes_witness:
  "category_from_code ''xyz_2024'' = ''HYROX''
   \<and> opt_unknown \<in> set [opt_overall, opt_unknown]
   \<and> c_category (combo_for ''Season 8'' ''https://results.hyrox.com/season-8/''
        (opt_value demo_group) opt_unknown) = ''HYROX''
   \<and> \<not> has_overall opt_unknown
   \<and> has_overall opt_overall
   \<and> opt_unknown \<notin> set (filter has_overall [opt_overall, opt_unknown])"
proof -
  have mem: "opt_unknown \<in> set [opt_overall, opt_unknown]" by simp
  have code: "opt_value opt_unknown = JStr ''xyz_2024''" by (simp add: opt_unknown_def)
  note inst = open_filter_keeps_unprefixed_codes[where net = mixed_site
      and season = "''Season 8''" and rest = "[]",
      OF mixed_site_codes[of fresh] mixed_open mem code unknown_no_prefix]
  have a: "category_from_code ''xyz_2024'' = ''HYROX''" by (rule inst[THEN conjunct1])
  have b: "c_category (combo_for ''Season 8'' ''https://results.hyrox.com/season-8/''
        (opt_value demo_group) opt_unknown) = ''HYROX''"
    by (rule inst[THEN conjunct2, THEN conjunct2, THEN conjunct2, THEN conjunct1])
  have some: "\<exists>other \<in> set [opt_overall, opt_unknown]. has_overall other"
    by (simp add: overall_flags)
  have c: "opt_unknown \<notin> set (filter has_overall [opt_overall, opt_unknown])"
    using inst[THEN conjunct2, THEN conjunct2, THEN conjunct2, THEN conjunct2, THEN conjunct2]
      some overall_flags(3)
    by (simp only: if_True) blast
  show ?thesis
    by (intro conjI a mem b overall_flags(3) overall_flags(1) c)
qed

text \<open>The run on the site whose group offers \<open>H_OVERALL\<close> and \<open>xyz_2024\<close>.\<close>

lemma mixed_main:
  "main mixed_site file_rows =
     (None, scrape_combo mixed_site demo_combo
        \<lparr>done_keys = load_done_keys file_rows, store = file_rows,
         exchanges =
           map (\<lambda>s. (SearchFields (snd s) None, Inl RequestError)) (butlast SEASON_BASES)
           @ [(SearchFields ''https://results.hyrox.com/season-8/'' None,
                Inr \<lparr>resp_json = Some groups_json, resp_soup = Text []\<rparr>),
              (SearchFields ''https://results.hyrox.com/season-8/'' (Some (JStr ''2025 Wien'')),
                Inr \<lparr>resp_json = Some mixed_json, resp_soup = Text []\<rparr>)]\<rparr>)"
  by (simp add: main_def SEASON_BASES_def get_event_groups_def get_event_codes_def
      polite_get_def mixed_site_def demo_groups mixed_codes mixed_open mixed_use demo_events
      ONLY_OPEN_def Let_def demo_group_def
      del: events_loop.simps open_filter.simps)

lemma mixed_run:
  "store (snd (main mixed_site [])) = [demo_row, demo_row]"
  "filter (\<lambda>q. request_key q \<noteq> None) (map fst (exchanges (snd (main mixed_site []))))
     = [page_request demo_combo 1, page_request demo_combo 2]"
proof -
  let ?st = "\<lparr>done_keys = load_done_keys [], store = [],
         exchanges =
           map (\<lambda>s. (SearchFields (snd s) None, Inl RequestError)) (butlast SEASON_BASES)
           @ [(SearchFields ''https://results.hyrox.com/season-8/'' None,
                Inr \<lparr>resp_json = Some groups_json, resp_soup = Text []\<rparr>),
              (SearchFields ''https://results.hyrox.com/season-8/'' (Some (JStr ''2025 Wien'')),
                Inr \<lparr>resp_json = Some mixed_json, resp_soup = Text []\<rparr>)]\<rparr>"
  have key: "combo_key demo_combo \<notin> done_keys ?st"
    by (simp add: load_done_keys_def)
  note run = scrape_30[where net = mixed_site, OF key demo_site_pages(2)]
  show "store (snd (main mixed_site [])) = [demo_row, demo_row]"
    unfolding mixed_main run by simp
  show "filter (\<lambda>q. request_key q \<noteq> None) (map fst (exchanges (snd (main mixed_site []))))
     = [page_request demo_combo 1, page_request demo_combo 2]"
    unfolding mixed_main run by (simp add: request_key_page SEASON_BASES_def)
qed

lemma key_not_requested:
  assumes "filter (\<lambda>q. request_key q \<noteq> None) qs = rs"
    and "Some k \<notin> set (map request_key rs)"
  shows "Some k \<notin> set (map request_key qs)"
proof
  assume "Some k \<in> set (map request_key qs)"
  then obtain q where q: "q \<in> set qs" "request_key q = Some k" by auto
  then have "q \<in> set (filter (\<lambda>q. request_key q \<noteq> None) qs)" by simp
  with assms(1) have "q \<in> set rs" by simp
  with q(2) have "Some k \<in> set (map request_key rs)" by force
  with assms(2) show False by simp
qed

theorem unprefixed_code_left_out_by_overall_preference:
  "filter (\<lambda>(p, n). prefix p (upper ''xyz_2024'')) CATEGORY_PREFIXES = []
   \<and> fst (get_event_codes mixed_site ''https://results.hyrox.com/season-8/''
            (opt_value demo_group) fresh) = Inr [opt_overall, opt_unknown]
   \<and> opt_value opt_unknown = JStr ''xyz_2024''
   \<and> open_filter [opt_overall, opt_unknown] = Inr [opt_overall, opt_unknown]
   \<and> use_opts [opt_overall, opt_unknown] = Inr [opt_overall]
   \<and> Some (''xyz_2024'', ''M'')
        \<notin> set (map request_key (map fst (exchanges (snd (main mixed_site [])))))
   \<and> (''xyz_2024'', ''M'') \<notin> set (map row_key (store (snd (main mixed_site []))))
   \<and> store (snd (main mixed_site [])) = [demo_row, demo_row]"
proof -
  have a: "filter (\<lambda>(p, n). prefix p (upper ''xyz_2024'')) CATEGORY_PREFIXES = []"
    by (simp add: unknown_upper CATEGORY_PREFIXES_def)
  have b: "fst (get_event_codes mixed_site ''https://results.hyrox.com/season-8/''
            (opt_value demo_group) fresh) = Inr [opt_overall, opt_unknown]"
    by (simp add: mixed_site_codes)
  have c: "opt_value opt_unknown = JStr ''xyz_2024''" by (simp add: opt_unknown_def)
  have "Some (''xyz_2024'', ''M'')
      \<notin> set (map request_key [page_request demo_combo 1, page_request demo_combo 2])"
    by (simp add: request_key_page combo_key_def demo_combo_def)
  with mixed_run(2) have d: "Some (''xyz_2024'', ''M'')
        \<notin> set (map request_key (map fst (exchanges (snd (main mixed_site [])))))"
    by (rule key_not_requested)
  have e: "(''xyz_2024'', ''M'') \<notin> set (map row_key (store (snd (main mixed_site []))))"
    by (simp add: mixed_run(1) row_key_def demo_row_def)
  show ?thesis
    by (intro conjI a b c mixed_open mixed_use d e mixed_run(1))
qed

section \<open>A name of white space only is an empty name\<close>

text \<open>
  A name cell that holds a no-break space and a next-line character only has the empty
  text, so its row yields no record.
\<close>

lemma nbsp_texts: "rank_text nbsp_row = ''7''" "name_text nbsp_row = []"
  by (simp_all add: rank_text_def name_text_def nbsp_row_def nbsp_def row_eval)

lemma nbsp_row_skipped: "rows_loop [nbsp_row] = []"
  by (simp add: rows_loop_single nbsp_texts del: rows_loop.simps)

end
